theory Spec2Isabelle
  imports Main "HOL-Library.Word"
begin

unbundle bit_operations_syntax

section \<open>The order index: \<^verbatim>\<open>FlatMap\<close> (flat\_map.h)\<close>

text \<open>
  \<^verbatim>\<open>FlatMap<Key, Value, EmptyKey = 0>\<close> is an open-addressing table with linear probing.
  Keys are \<^verbatim>\<open>uint64_t\<close>; the key \<open>0\<close> marks a free slot. The vector \<^verbatim>\<open>entries_\<close> is a
  function from slot numbers to (key, value) pairs; \<^verbatim>\<open>size_t\<close> indices are natural numbers
  (they are always masked by \<^verbatim>\<open>capacity_ - 1\<close>). A freshly zeroed slot holds the filler
  value \<open>z\<close> (the all-zero bit pattern of the value type), which no operation ever reads.
\<close>

definition fm_hash :: "64 word \<Rightarrow> 64 word" where
  "fm_hash k =
     (let x = k;
          x = x XOR drop_bit 33 x;
          x = x * 0xff51afd7ed558ccd;
          x = x XOR drop_bit 33 x;
          x = x * 0xc4ceb9fe1a85ec53;
          x = x XOR drop_bit 33 x
      in x)"

record 'v flat_map =
  entries :: "nat \<Rightarrow> 64 word \<times> 'v"
  capacity :: nat
  fm_size :: nat

text \<open>\<^verbatim>\<open>w & buf_mask\<close> with \<^verbatim>\<open>buf_mask = capacity_ - 1\<close>.\<close>

definition slot :: "nat \<Rightarrow> 64 word \<Rightarrow> nat" where
  "slot cap w = unat (w AND (word_of_nat cap - 1))"

text \<open>\<^verbatim>\<open>(idx + 1) & buf_mask\<close>.\<close>

definition next_slot :: "nat \<Rightarrow> nat \<Rightarrow> nat" where
  "next_slot cap idx = slot cap (word_of_nat idx + 1)"

text \<open>The probe loop of \<^verbatim>\<open>find\<close>; it gives up once \<^verbatim>\<open>probes > capacity_\<close>.\<close>

function find_probe :: "'v flat_map \<Rightarrow> 64 word \<Rightarrow> nat \<Rightarrow> nat \<Rightarrow> 'v option" where
  "find_probe m k idx probes =
     (if fst (entries m idx) = 0 then None
      else if fst (entries m idx) = k then Some (snd (entries m idx))
      else if probes + 1 > capacity m then None
      else find_probe m k (next_slot (capacity m) idx) (probes + 1))"
  by pat_completeness auto
termination
  by (relation "measure (\<lambda>(m, k, idx, probes). capacity m + 1 - probes)") auto

declare find_probe.simps [simp del]

definition fm_find :: "'v flat_map \<Rightarrow> 64 word \<Rightarrow> 'v option" where
  "fm_find m k =
     (if k = 0 then None else find_probe m k (slot (capacity m) (fm_hash k)) 0)"

text \<open>
  The loops of \<^verbatim>\<open>insert_internal\<close> and \<^verbatim>\<open>erase\<close> have no bound of their own: on a
  table without a free slot they do not return. They are partial functions into
  \<open>option\<close>, where \<open>None\<close> is "does not return".
\<close>

partial_function (option) insert_probe ::
  "'v flat_map \<Rightarrow> 64 word \<Rightarrow> 'v \<Rightarrow> nat \<Rightarrow> 'v flat_map option" where
  "insert_probe m k v idx =
     (if fst (entries m idx) = 0
      then Some (m\<lparr>entries := (entries m)(idx := (k, v)), fm_size := fm_size m + 1\<rparr>)
      else if fst (entries m idx) = k
      then Some (m\<lparr>entries := (entries m)(idx := (k, v))\<rparr>)
      else insert_probe m k v (next_slot (capacity m) idx))"

definition insert_internal :: "'v flat_map \<Rightarrow> 64 word \<Rightarrow> 'v \<Rightarrow> 'v flat_map option" where
  "insert_internal m k v = insert_probe m k v (slot (capacity m) (fm_hash k))"

text \<open>\<^verbatim>\<open>resize\<close>: a zeroed table of the new capacity, then every old entry re-inserted.\<close>

fun reinsert :: "(64 word \<times> 'v) list \<Rightarrow> 'v flat_map \<Rightarrow> 'v flat_map option" where
  "reinsert [] m = Some m"
| "reinsert (e # es) m =
     (if fst e \<noteq> 0
      then (case insert_internal m (fst e) (snd e) of
              None \<Rightarrow> None
            | Some m' \<Rightarrow> reinsert es m')
      else reinsert es m)"

definition fm_resize :: "'v \<Rightarrow> (64 word \<times> 'v) list \<Rightarrow> nat \<Rightarrow> 'v flat_map option" where
  "fm_resize z old_entries new_cap =
     reinsert old_entries \<lparr>entries = (\<lambda>_. (0, z)), capacity = new_cap, fm_size = 0\<rparr>"

text \<open>
  The constructor doubles \<open>cap\<close> from 16 until it reaches the requested capacity
  (the guard \<open>0 < cap\<close> only makes the recursion total; \<open>cap\<close> starts at 16).
\<close>

function grow_cap :: "nat \<Rightarrow> nat \<Rightarrow> nat" where
  "grow_cap cap n = (if cap < n \<and> 0 < cap then grow_cap (cap * 2) n else cap)"
  by pat_completeness auto
termination
  by (relation "measure (\<lambda>(cap, n). n - cap)") auto

declare grow_cap.simps [simp del]

definition fm_new :: "'v \<Rightarrow> nat \<Rightarrow> 'v flat_map option" where
  "fm_new z initial_capacity = fm_resize z [] (grow_cap 16 initial_capacity)"

text \<open>\<^verbatim>\<open>insert\<close>: \<^verbatim>\<open>size_ >= capacity_ * 0.7\<close> is \<open>10 * size \<ge> 7 * capacity\<close>.\<close>

definition fm_insert :: "'v \<Rightarrow> 'v flat_map \<Rightarrow> 64 word \<Rightarrow> 'v \<Rightarrow> 'v flat_map option" where
  "fm_insert z m k v =
     (if 10 * fm_size m \<ge> 7 * capacity m
      then (case fm_resize z (map (entries m) [0..<capacity m]) (capacity m * 2) of
              None \<Rightarrow> None
            | Some m' \<Rightarrow> insert_internal m' k v)
      else insert_internal m k v)"

text \<open>
  \<^verbatim>\<open>erase\<close>, inner loop: backward-shift after the slot \<open>idx\<close> was freed. The source
  computes \<^verbatim>\<open>can_move\<close> by the same expression in the wrapped and in the regular branch.
\<close>

partial_function (option) erase_shift ::
  "'v flat_map \<Rightarrow> nat \<Rightarrow> nat \<Rightarrow> 'v flat_map option" where
  "erase_shift m idx probe_idx =
     (if fst (entries m probe_idx) = 0 then Some m
      else
        let probe_entry = entries m probe_idx;
            desired_idx = slot (capacity m) (fm_hash (fst probe_entry));
            wrapped = probe_idx < idx;
            can_move = (if \<not> wrapped
                        then desired_idx \<le> idx \<or> desired_idx > probe_idx
                        else desired_idx \<le> idx \<or> desired_idx > probe_idx)
        in if can_move
           then erase_shift
                  (m\<lparr>entries := (entries m)(idx := probe_entry,
                                               probe_idx := (0, snd probe_entry))\<rparr>)
                  probe_idx (next_slot (capacity m) probe_idx)
           else erase_shift m idx (next_slot (capacity m) probe_idx))"

text \<open>\<^verbatim>\<open>erase\<close>, outer loop: find the key, free its slot, then shift.\<close>

partial_function (option) erase_probe ::
  "'v flat_map \<Rightarrow> 64 word \<Rightarrow> nat \<Rightarrow> 'v flat_map option" where
  "erase_probe m k idx =
     (if fst (entries m idx) = 0 then Some m
      else if fst (entries m idx) = k
      then erase_shift
             (m\<lparr>entries := (entries m)(idx := (0, snd (entries m idx))),
                fm_size := fm_size m - 1\<rparr>)
             idx (next_slot (capacity m) idx)
      else erase_probe m k (next_slot (capacity m) idx))"

definition fm_erase :: "'v flat_map \<Rightarrow> 64 word \<Rightarrow> 'v flat_map option" where
  "fm_erase m k = erase_probe m k (slot (capacity m) (fm_hash k))"

declare insert_probe.simps [code]
declare erase_shift.simps [code]
declare erase_probe.simps [code]

section \<open>Types, commands and events (types.h, command.h, event.h)\<close>

text \<open>
  \<^verbatim>\<open>Tick\<close> and \<^verbatim>\<open>Quantity\<close> are \<^verbatim>\<open>int64_t\<close>. They are modelled as mathematical integers:
  the two sentinels are the least and the greatest \<^verbatim>\<open>int64_t\<close>, and signed overflow
  (undefined in C++) is outside the model. Identifiers, flags and timestamps are
  unsigned machine words.
\<close>

datatype side = Bid | Ask
datatype order_type = Limit | Market | StopLimit | StopMarket
datatype time_in_force = GTC | IOC | FOK | GTD
datatype command_type = NewOrder | CancelOrder | ModifyOrder

definition EMPTY_BID :: int where "EMPTY_BID = - (2 ^ 63)"
definition EMPTY_ASK :: int where "EMPTY_ASK = 2 ^ 63 - 1"

definition STP :: "32 word" where "STP = push_bit 2 1"

record price_band =
  min_tick :: int
  max_tick :: int
  tick_size :: int

text \<open>
  \<^verbatim>\<open>OrderCommand\<close>, with the fields the book reads (\<^verbatim>\<open>symbol_id\<close>, \<^verbatim>\<open>stop_price\<close>,
  \<^verbatim>\<open>display_qty\<close> and \<^verbatim>\<open>expiry_ts\<close> are never read by \<^verbatim>\<open>OrderBook\<close> or by
  \<^verbatim>\<open>MatchingEngine::run\<close>).
\<close>

record order_command =
  cmd_type :: command_type
  recv_ts :: "64 word"
  order_id :: "64 word"
  user_id :: "32 word"
  price_ticks :: int
  cmd_qty :: int
  cmd_side :: side
  order_type :: order_type
  tif :: time_in_force
  cmd_flags :: "32 word"

record trade_event =
  t_ts :: "64 word"
  taker_id :: "64 word"
  maker_id :: "64 word"
  t_symbol :: "32 word"
  t_price :: int
  t_qty :: int

record book_update =
  u_ts :: "64 word"
  u_symbol :: "32 word"
  u_best_bid :: int
  u_best_ask :: int
  bid_qty :: int
  ask_qty :: int

text \<open>\<^verbatim>\<open>AnyEvent\<close>: what the engine's two callbacks push to its output queue.\<close>

datatype any_event = Trade trade_event | Update book_update

record exec_result =
  filled :: int
  remaining :: int
  accepted :: bool

definition ExecResult :: "int \<Rightarrow> int \<Rightarrow> exec_result" where
  "ExecResult f r = \<lparr>filled = f, remaining = r, accepted = True\<rparr>"

section \<open>Order nodes and FIFO levels (order.h)\<close>

text \<open>
  An \<^verbatim>\<open>OrderNode\<close> lives in the slab pool; \<open>n_addr\<close> is its address. The intrusive
  \<^verbatim>\<open>prev\<close>/\<^verbatim>\<open>next\<close> links of a \<^verbatim>\<open>LevelFIFO\<close> are the order of the list \<open>nodes\<close>
  (head first). The iceberg, expiry and stop fields are never read or written by the
  book.
\<close>

record order_node =
  n_id :: "64 word"
  n_user :: "32 word"
  n_qty :: int
  n_ts :: "64 word"
  n_flags :: "32 word"
  n_addr :: nat

record level_fifo =
  nodes :: "order_node list"
  total_qty :: int

definition empty_level :: level_fifo where
  "empty_level = \<lparr>nodes = [], total_qty = 0\<rparr>"

definition level_empty :: "level_fifo \<Rightarrow> bool" where
  "level_empty lv = (nodes lv = [])"

definition enqueue :: "level_fifo \<Rightarrow> order_node \<Rightarrow> level_fifo" where
  "enqueue lv n = lv\<lparr>nodes := nodes lv @ [n], total_qty := total_qty lv + n_qty n\<rparr>"

text \<open>\<^verbatim>\<open>erase(node)\<close> unlinks the node at that address.\<close>

definition level_erase :: "level_fifo \<Rightarrow> order_node \<Rightarrow> level_fifo" where
  "level_erase lv n =
     lv\<lparr>nodes := filter (\<lambda>x. n_addr x \<noteq> n_addr n) (nodes lv),
        total_qty := total_qty lv - n_qty n\<rparr>"

definition reduce_qty :: "level_fifo \<Rightarrow> order_node \<Rightarrow> int \<Rightarrow> level_fifo" where
  "reduce_qty lv n reduction =
     lv\<lparr>nodes := map (\<lambda>x. if n_addr x = n_addr n then x\<lparr>n_qty := n_qty x - reduction\<rparr> else x)
                    (nodes lv),
        total_qty := total_qty lv - reduction\<rparr>"

text \<open>Dereferencing a node pointer held by the index: the live node at that address.\<close>

definition node_at :: "level_fifo \<Rightarrow> nat \<Rightarrow> order_node option" where
  "node_at lv a = find (\<lambda>x. n_addr x = a) (nodes lv)"

section \<open>The dense ladder (price\_levels\_array.h)\<close>

text \<open>
  \<^verbatim>\<open>levels_\<close> is a vector indexed by \<^verbatim>\<open>idx(px) = px - min_tick\<close>; \<^verbatim>\<open>idx\<close> asserts that
  \<open>px\<close> is inside the band, so every operation that goes through it returns \<open>None\<close>
  when the assertion fails. \<^verbatim>\<open>best_bid_ptr_\<close> and \<^verbatim>\<open>best_ask_ptr_\<close> are written only by
  \<^verbatim>\<open>set_best_bid\<close>/\<^verbatim>\<open>set_best_ask\<close>, together with the tick, so \<^verbatim>\<open>best_level_ptr\<close> is
  computed from the tick.
\<close>

record price_levels =
  band :: price_band
  levels :: "nat \<Rightarrow> level_fifo"
  pl_best_bid :: int
  pl_best_ask :: int

definition PriceLevelsArray :: "price_band \<Rightarrow> price_levels" where
  "PriceLevelsArray bd =
     \<lparr>band = bd, levels = (\<lambda>_. empty_level), pl_best_bid = EMPTY_BID, pl_best_ask = EMPTY_ASK\<rparr>"

definition is_valid_price :: "price_levels \<Rightarrow> int \<Rightarrow> bool" where
  "is_valid_price pl px = (px \<ge> min_tick (band pl) \<and> px \<le> max_tick (band pl))"

definition idx :: "price_levels \<Rightarrow> int \<Rightarrow> nat option" where
  "idx pl px =
     (if px \<ge> min_tick (band pl) \<and> px \<le> max_tick (band pl)
      then Some (nat (px - min_tick (band pl))) else None)"

definition get_level :: "price_levels \<Rightarrow> int \<Rightarrow> level_fifo option" where
  "get_level pl px = (case idx pl px of None \<Rightarrow> None | Some i \<Rightarrow> Some (levels pl i))"

definition has_level :: "price_levels \<Rightarrow> int \<Rightarrow> bool option" where
  "has_level pl px =
     (case idx pl px of None \<Rightarrow> None | Some i \<Rightarrow> Some (\<not> level_empty (levels pl i)))"

definition sentinel :: "side \<Rightarrow> int" where
  "sentinel sd = (case sd of Bid \<Rightarrow> EMPTY_BID | Ask \<Rightarrow> EMPTY_ASK)"

text \<open>\<^verbatim>\<open>best_bid()\<close> for the bid side, \<^verbatim>\<open>best_ask()\<close> for the ask side.\<close>

definition best :: "side \<Rightarrow> price_levels \<Rightarrow> int" where
  "best sd pl = (case sd of Bid \<Rightarrow> pl_best_bid pl | Ask \<Rightarrow> pl_best_ask pl)"

text \<open>\<^verbatim>\<open>set_best_bid\<close> and \<^verbatim>\<open>set_best_ask\<close>; a tick other than the sentinel goes through \<^verbatim>\<open>idx\<close>.\<close>

definition set_best :: "side \<Rightarrow> price_levels \<Rightarrow> int \<Rightarrow> price_levels option" where
  "set_best sd pl px =
     (if px \<noteq> sentinel sd \<and> idx pl px = None then None
      else Some (case sd of Bid \<Rightarrow> pl\<lparr>pl_best_bid := px\<rparr> | Ask \<Rightarrow> pl\<lparr>pl_best_ask := px\<rparr>))"

definition best_level_ptr :: "side \<Rightarrow> price_levels \<Rightarrow> nat option" where
  "best_level_ptr sd pl =
     (if best sd pl = sentinel sd then None
      else Some (nat (best sd pl - min_tick (band pl))))"

section \<open>The order book (order\_book.h)\<close>

record order_entry =
  e_side :: side
  e_price :: int
  e_node :: nat

text \<open>The zeroed \<^verbatim>\<open>OrderEntry\<close> of a free index slot.\<close>

definition zero_entry :: order_entry where
  "zero_entry = \<lparr>e_side = Bid, e_price = 0, e_node = 0\<rparr>"

text \<open>
  The book's state. \<open>next_addr\<close> is the slab pool: \<^verbatim>\<open>alloc_node\<close> hands out a fresh
  address (the pool's reuse of freed addresses is not modelled; a dangling address is a
  fault, see \<open>UseAfterFree\<close>). \<open>on_trade_set\<close> and \<open>on_book_update_set\<close> say whether the
  callbacks are registered; \<open>out\<close> is the sequence of events the callbacks received.
  \<^verbatim>\<open>TimestampUtil::now_ns()\<close> reads the steady clock: \<open>clock\<close> is the sequence of values
  the clock returns and \<open>clock_reads\<close> counts the reads made so far.
\<close>

record book =
  symbol_id :: "32 word"
  bids :: price_levels
  asks :: price_levels
  next_addr :: nat
  id_index :: "order_entry flat_map"
  on_trade_set :: bool
  on_book_update_set :: bool
  out :: "any_event list"
  clock :: "nat \<Rightarrow> 64 word"
  clock_reads :: nat

text \<open>
  An operation either returns (\<open>Done\<close>) or does not: an assertion of the ladder fails,
  a freed node is dereferenced, or a loop of the index never ends. The state carried by
  \<open>Fault\<close> is the state reached when the operation stopped.
\<close>

datatype fault = AssertionFailure | UseAfterFree | Diverges

datatype 'a outcome = Done 'a book | Fault fault book

definition ladder :: "side \<Rightarrow> book \<Rightarrow> price_levels" where
  "ladder sd b = (case sd of Bid \<Rightarrow> bids b | Ask \<Rightarrow> asks b)"

definition set_ladder :: "side \<Rightarrow> price_levels \<Rightarrow> book \<Rightarrow> book" where
  "set_ladder sd pl b = (case sd of Bid \<Rightarrow> b\<lparr>bids := pl\<rparr> | Ask \<Rightarrow> b\<lparr>asks := pl\<rparr>)"

definition opposite :: "side \<Rightarrow> side" where
  "opposite sd = (case sd of Bid \<Rightarrow> Ask | Ask \<Rightarrow> Bid)"

text \<open>A write through the reference to the level in slot \<open>i\<close> of a side.\<close>

definition upd_level :: "side \<Rightarrow> nat \<Rightarrow> (level_fifo \<Rightarrow> level_fifo) \<Rightarrow> book \<Rightarrow> book" where
  "upd_level sd i f b =
     set_ladder sd ((ladder sd b)\<lparr>levels := (levels (ladder sd b))(i := f (levels (ladder sd b) i))\<rparr>) b"

definition now_ns :: "book \<Rightarrow> 64 word \<times> book" where
  "now_ns b = (clock b (clock_reads b), b\<lparr>clock_reads := clock_reads b + 1\<rparr>)"

definition emit_trade :: "book \<Rightarrow> trade_event \<Rightarrow> book" where
  "emit_trade b t = (if on_trade_set b then b\<lparr>out := out b @ [Trade t]\<rparr> else b)"

definition emit_book_update :: "book \<Rightarrow> book option" where
  "emit_book_update b =
     (if on_book_update_set b then
        let best_bid_px = pl_best_bid (bids b);
            best_ask_px = pl_best_ask (asks b)
        in case (if best_bid_px \<noteq> EMPTY_BID
                 then map_option total_qty (get_level (bids b) best_bid_px) else Some 0) of
             None \<Rightarrow> None
           | Some bq \<Rightarrow>
             (case (if best_ask_px \<noteq> EMPTY_ASK
                    then map_option total_qty (get_level (asks b) best_ask_px) else Some 0) of
                None \<Rightarrow> None
              | Some aq \<Rightarrow>
                let (now, b1) = now_ns b
                in Some (b1\<lparr>out := out b1 @
                     [Update \<lparr>u_ts = now, u_symbol = symbol_id b,
                              u_best_bid = best_bid_px, u_best_ask = best_ask_px,
                              bid_qty = bq, ask_qty = aq\<rparr>]\<rparr>))
      else Some b)"

text \<open>\<^verbatim>\<open>emit_book_update(); return r;\<close>\<close>

definition finish :: "'a \<Rightarrow> book \<Rightarrow> 'a outcome" where
  "finish r b =
     (case emit_book_update b of None \<Rightarrow> Fault AssertionFailure b | Some b' \<Rightarrow> Done r b')"

subsection \<open>\<^verbatim>\<open>refresh_best_after_depletion\<close>\<close>

definition MAX_SEARCH :: int where "MAX_SEARCH = 10000"

text \<open>
  The \<^verbatim>\<open>for\<close> loop of one side; the two copies in the source differ in the direction of
  the search and in the sentinel only. Leaving the loop by \<^verbatim>\<open>break\<close> or by exhausting
  \<^verbatim>\<open>MAX_SEARCH\<close> sets the sentinel.
\<close>

definition scan_px :: "side \<Rightarrow> int \<Rightarrow> int \<Rightarrow> int" where
  "scan_px sd current_best i = (case sd of Bid \<Rightarrow> current_best - i | Ask \<Rightarrow> current_best + i)"

definition past_sentinel :: "side \<Rightarrow> int \<Rightarrow> bool" where
  "past_sentinel sd px = (case sd of Bid \<Rightarrow> px \<le> EMPTY_BID | Ask \<Rightarrow> px \<ge> EMPTY_ASK)"

function refresh_scan :: "side \<Rightarrow> price_levels \<Rightarrow> int \<Rightarrow> int \<Rightarrow> price_levels option" where
  "refresh_scan sd pl current_best i =
     (if i \<le> MAX_SEARCH then
        let px = scan_px sd current_best i in
        if past_sentinel sd px then set_best sd pl (sentinel sd)
        else if \<not> is_valid_price pl px then set_best sd pl (sentinel sd)
        else (case has_level pl px of
                None \<Rightarrow> None
              | Some True \<Rightarrow> set_best sd pl px
              | Some False \<Rightarrow> refresh_scan sd pl current_best (i + 1))
      else set_best sd pl (sentinel sd))"
  by pat_completeness auto
termination
  by (relation "measure (\<lambda>(sd, pl, current_best, i). nat (MAX_SEARCH + 1 - i))") auto

declare refresh_scan.simps [simp del]

definition refresh_best_after_depletion :: "side \<Rightarrow> book \<Rightarrow> unit outcome" where
  "refresh_best_after_depletion s b =
     (let current_best = best s (ladder s b) in
      if current_best = sentinel s then Done () b
      else (case refresh_scan s (ladder s b) current_best 1 of
              None \<Rightarrow> Fault AssertionFailure b
            | Some pl \<Rightarrow> Done () (set_ladder s pl b)))"


subsection \<open>\<^verbatim>\<open>match_against_side\<close>\<close>

text \<open>
  The inner loop walks the best level from its head. \<open>makers\<close> is the rest of the
  chain still to be visited (the source reads \<^verbatim>\<open>maker->next\<close> before it erases the
  maker); \<open>i\<close> is the slot of the level. \<^verbatim>\<open>free_node\<close> returns the node to the pool.
\<close>

fun match_level ::
  "side \<Rightarrow> nat \<Rightarrow> int \<Rightarrow> 64 word \<Rightarrow> 32 word \<Rightarrow> 64 word \<Rightarrow> bool \<Rightarrow>
   order_node list \<Rightarrow> int \<Rightarrow> int \<Rightarrow> book \<Rightarrow> (int \<times> int) outcome" where
  "match_level sd i best_price taker taker_user ts enable_stp [] qty total_filled b =
     Done (qty, total_filled) b"
| "match_level sd i best_price taker taker_user ts enable_stp (maker # rest) qty total_filled b =
     (if \<not> qty > 0 then Done (qty, total_filled) b
      else if enable_stp \<and> n_user maker = taker_user
      then match_level sd i best_price taker taker_user ts enable_stp rest qty total_filled b
      else
        let match_qty = min qty (n_qty maker);
            b1 = (if on_trade_set b
                  then emit_trade b \<lparr>t_ts = ts, taker_id = taker, maker_id = n_id maker,
                                      t_symbol = symbol_id b, t_price = best_price,
                                      t_qty = match_qty\<rparr>
                  else b);
            qty' = qty - match_qty;
            total_filled' = total_filled + match_qty
        in if match_qty \<ge> n_qty maker
           then (let b2 = upd_level sd i (\<lambda>lv. level_erase lv maker) b1 in
                 case fm_erase (id_index b2) (n_id maker) of
                   None \<Rightarrow> Fault Diverges b2
                 | Some ix \<Rightarrow>
                     match_level sd i best_price taker taker_user ts enable_stp rest
                       qty' total_filled' (b2\<lparr>id_index := ix\<rparr>))
           else match_level sd i best_price taker taker_user ts enable_stp rest
                  qty' total_filled' (upd_level sd i (\<lambda>lv. reduce_qty lv maker match_qty) b1))"

text \<open>The distance of a side's cached best tick from the end of its band.\<close>

definition depth :: "side \<Rightarrow> price_levels \<Rightarrow> nat" where
  "depth sd pl =
     (if best sd pl = sentinel sd then 0
      else (case sd of Bid \<Rightarrow> nat (best sd pl - min_tick (band pl)) + 1
                     | Ask \<Rightarrow> nat (max_tick (band pl) - best sd pl) + 1))"

lemma ladder_set_ladder [simp]: "ladder sd (set_ladder sd pl b) = pl"
  by (cases sd) (simp_all add: ladder_def set_ladder_def)

lemma ladder_emit_trade [simp]: "ladder sd (emit_trade b t) = ladder sd b"
  by (simp add: ladder_def emit_trade_def split: side.splits)

lemma ladder_id_index_update [simp]: "ladder sd (b\<lparr>id_index := ix\<rparr>) = ladder sd b"
  by (simp add: ladder_def split: side.splits)

lemma best_upd_level [simp]: "best sd' (ladder sd' (upd_level sd i f b)) = best sd' (ladder sd' b)"
  by (cases sd; cases sd') (simp_all add: upd_level_def ladder_def set_ladder_def best_def)

lemma band_upd_level [simp]: "band (ladder sd' (upd_level sd i f b)) = band (ladder sd' b)"
  by (cases sd; cases sd') (simp_all add: upd_level_def ladder_def set_ladder_def)

lemma match_level_best:
  "match_level sd i bp taker tu ts stp makers qty tf b = Done r b'
   \<Longrightarrow> best sd' (ladder sd' b') = best sd' (ladder sd' b) \<and>
       band (ladder sd' b') = band (ladder sd' b)"
proof (induction makers arbitrary: qty tf b)
  case Nil
  then show ?case by simp
next
  case (Cons maker rest)
  show ?case
  proof (cases "\<not> qty > 0")
    case True
    with Cons.prems show ?thesis by simp
  next
    case pos: False
    show ?thesis
    proof (cases "stp \<and> n_user maker = tu")
      case True
      with pos Cons.prems Cons.IH show ?thesis by simp
    next
      case False
      with pos Cons.prems show ?thesis
        by (auto simp: Let_def split: if_splits option.splits dest!: Cons.IH)
    qed
  qed
qed

lemma set_best_band: "set_best sd pl px = Some pl' \<Longrightarrow> band pl' = band pl"
  by (auto simp: set_best_def split: if_splits side.splits)

lemma set_best_best: "set_best sd pl px = Some pl' \<Longrightarrow> best sd pl' = px"
  by (auto simp: set_best_def best_def split: if_splits side.splits)

lemma has_level_valid:
  "is_valid_price pl px \<Longrightarrow> has_level pl px = Some (\<not> level_empty (levels pl (nat (px - min_tick (band pl)))))"
  by (simp add: has_level_def idx_def is_valid_price_def)

lemma set_best_sentinel: "set_best sd pl (sentinel sd) \<noteq> None"
  by (simp add: set_best_def)

lemma set_best_valid: "is_valid_price pl px \<Longrightarrow> set_best sd pl px \<noteq> None"
  by (simp add: set_best_def idx_def is_valid_price_def)

text \<open>What the search returns: the first non-empty level it meets, or the sentinel.\<close>

lemma refresh_scan_result:
  "\<exists>j\<ge>i. (\<forall>k. i \<le> k \<and> k < j \<longrightarrow>
              is_valid_price pl (scan_px sd cur k) \<and>
              level_empty (levels pl (nat (scan_px sd cur k - min_tick (band pl))))) \<and>
     ((j \<le> MAX_SEARCH \<and> is_valid_price pl (scan_px sd cur j) \<and>
       \<not> past_sentinel sd (scan_px sd cur j) \<and>
       \<not> level_empty (levels pl (nat (scan_px sd cur j - min_tick (band pl)))) \<and>
       refresh_scan sd pl cur i = set_best sd pl (scan_px sd cur j)) \<or>
      ((j > MAX_SEARCH \<or> past_sentinel sd (scan_px sd cur j) \<or>
        \<not> is_valid_price pl (scan_px sd cur j)) \<and>
       refresh_scan sd pl cur i = set_best sd pl (sentinel sd)))"
proof (induction "nat (MAX_SEARCH + 1 - i)" arbitrary: i rule: less_induct)
  case less
  let ?px = "scan_px sd cur i"
  show ?case
  proof (cases "i \<le> MAX_SEARCH \<and> \<not> past_sentinel sd ?px \<and> is_valid_price pl ?px")
    case False
    then have "refresh_scan sd pl cur i = set_best sd pl (sentinel sd)"
      by (subst refresh_scan.simps) (auto simp: Let_def)
    with False show ?thesis
      by (intro exI[of _ i]) auto
  next
    case ok: True
    show ?thesis
    proof (cases "level_empty (levels pl (nat (?px - min_tick (band pl))))")
      case False
      with ok have "refresh_scan sd pl cur i = set_best sd pl ?px"
        by (subst refresh_scan.simps) (simp add: Let_def has_level_valid)
      with ok False show ?thesis
        by (intro exI[of _ i]) auto
    next
      case True
      with ok have step: "refresh_scan sd pl cur i = refresh_scan sd pl cur (i + 1)"
        by (subst refresh_scan.simps) (simp add: Let_def has_level_valid)
      from ok have "nat (MAX_SEARCH + 1 - (i + 1)) < nat (MAX_SEARCH + 1 - i)" by simp
      from less[OF this] obtain j where j: "j \<ge> i + 1"
        "\<forall>k. i + 1 \<le> k \<and> k < j \<longrightarrow>
              is_valid_price pl (scan_px sd cur k) \<and>
              level_empty (levels pl (nat (scan_px sd cur k - min_tick (band pl))))"
        "(j \<le> MAX_SEARCH \<and> is_valid_price pl (scan_px sd cur j) \<and>
          \<not> past_sentinel sd (scan_px sd cur j) \<and>
          \<not> level_empty (levels pl (nat (scan_px sd cur j - min_tick (band pl)))) \<and>
          refresh_scan sd pl cur (i + 1) = set_best sd pl (scan_px sd cur j)) \<or>
         ((j > MAX_SEARCH \<or> past_sentinel sd (scan_px sd cur j) \<or>
           \<not> is_valid_price pl (scan_px sd cur j)) \<and>
          refresh_scan sd pl cur (i + 1) = set_best sd pl (sentinel sd))"
        by blast
      have "\<forall>k. i \<le> k \<and> k < j \<longrightarrow>
              is_valid_price pl (scan_px sd cur k) \<and>
              level_empty (levels pl (nat (scan_px sd cur k - min_tick (band pl))))"
      proof (intro allI impI)
        fix k assume k: "i \<le> k \<and> k < j"
        show "is_valid_price pl (scan_px sd cur k) \<and>
              level_empty (levels pl (nat (scan_px sd cur k - min_tick (band pl))))"
        proof (cases "k = i")
          case True
          with ok \<open>level_empty (levels pl (nat (?px - min_tick (band pl))))\<close> show ?thesis by simp
        next
          case False
          with k have "i + 1 \<le> k \<and> k < j" by simp
          with j(2) show ?thesis by blast
        qed
      qed
      with j(1,3) step show ?thesis
        by (intro exI[of _ j]) auto
    qed
  qed
qed

lemma refresh_scan_total: "refresh_scan sd pl cur i \<noteq> None"
  using refresh_scan_result[of i pl sd cur] set_best_sentinel[of sd pl]
  by (auto simp: set_best_valid)

lemma refresh_scan_depth:
  assumes "refresh_scan sd pl cur i = Some pl'" "1 \<le> i" "cur = best sd pl" "cur \<noteq> sentinel sd"
  shows "depth sd pl' < depth sd pl"
proof -
  from refresh_scan_result[of i pl sd cur] obtain j where j: "j \<ge> i"
    "(is_valid_price pl (scan_px sd cur j) \<and> \<not> past_sentinel sd (scan_px sd cur j) \<and>
      refresh_scan sd pl cur i = set_best sd pl (scan_px sd cur j)) \<or>
     refresh_scan sd pl cur i = set_best sd pl (sentinel sd)"
    by blast
  from j(2) show ?thesis
  proof
    assume h: "is_valid_price pl (scan_px sd cur j) \<and> \<not> past_sentinel sd (scan_px sd cur j) \<and>
      refresh_scan sd pl cur i = set_best sd pl (scan_px sd cur j)"
    with assms(1) have sb: "set_best sd pl (scan_px sd cur j) = Some pl'" by simp
    have "best sd pl' = scan_px sd cur j" "band pl' = band pl"
      using set_best_best[OF sb] set_best_band[OF sb] by simp_all
    moreover have "scan_px sd cur j \<noteq> sentinel sd"
      using h by (auto simp: sentinel_def past_sentinel_def split: side.splits)
    ultimately show ?thesis
      using h j(1) assms(2,3,4)
      by (auto simp: depth_def scan_px_def is_valid_price_def split: side.splits)
  next
    assume "refresh_scan sd pl cur i = set_best sd pl (sentinel sd)"
    with assms(1) have sb: "set_best sd pl (sentinel sd) = Some pl'" by simp
    show ?thesis
      using set_best_best[OF sb] assms(3,4) by (simp add: depth_def split: side.splits)
  qed
qed


lemma refresh_depth:
  "refresh_best_after_depletion sd b = Done u b' \<Longrightarrow> best sd (ladder sd b) \<noteq> sentinel sd
   \<Longrightarrow> depth sd (ladder sd b') < depth sd (ladder sd b)"
  by (auto simp: refresh_best_after_depletion_def Let_def split: option.splits
      dest!: refresh_scan_depth)

text \<open>The outer loop of \<^verbatim>\<open>match_against_side<IsBid>\<close>; \<open>sd\<close> is the side matched against.\<close>

function match_loop ::
  "side \<Rightarrow> int \<Rightarrow> 64 word \<Rightarrow> 32 word \<Rightarrow> 64 word \<Rightarrow> bool \<Rightarrow> int \<Rightarrow> int \<Rightarrow> book \<Rightarrow> int outcome" where
  "match_loop sd px_limit taker taker_user ts enable_stp qty total_filled b =
     (if \<not> qty > 0 then Done total_filled b
      else case best_level_ptr sd (ladder sd b) of
        None \<Rightarrow> Done total_filled b
      | Some i \<Rightarrow>
          if level_empty (levels (ladder sd b) i) then Done total_filled b
          else
            let best_price = best sd (ladder sd b) in
            if (case sd of Bid \<Rightarrow> best_price < px_limit | Ask \<Rightarrow> best_price > px_limit)
            then Done total_filled b
            else (case match_level sd i best_price taker taker_user ts enable_stp
                         (nodes (levels (ladder sd b) i)) qty total_filled b of
                    Fault f b' \<Rightarrow> Fault f b'
                  | Done r b1 \<Rightarrow>
                      if level_empty (levels (ladder sd b1) i)
                      then (case refresh_best_after_depletion sd b1 of
                              Fault f b' \<Rightarrow> Fault f b'
                            | Done u b2 \<Rightarrow>
                                match_loop sd px_limit taker taker_user ts enable_stp
                                  (fst r) (snd r) b2)
                      else Done (snd r) b1))"
  by pat_completeness auto
termination
proof (relation "measure (\<lambda>(sd, px_limit, taker, taker_user, ts, enable_stp, qty, total_filled, b).
                            depth sd (ladder sd b))", goal_cases)
  case 1
  show ?case by simp
next
  case (2 sd px_limit taker taker_user ts enable_stp qty total_filled b i best_price r b1 u b2)
  from 2(2) have ne: "best sd (ladder sd b) \<noteq> sentinel sd"
    by (auto simp: best_level_ptr_def split: if_splits)
  from match_level_best[OF 2(6), of sd] have same: "best sd (ladder sd b1) = best sd (ladder sd b)"
    "band (ladder sd b1) = band (ladder sd b)" by simp_all
  from refresh_depth[OF 2(8)] ne same have "depth sd (ladder sd b2) < depth sd (ladder sd b1)"
    by simp
  moreover have "depth sd (ladder sd b1) = depth sd (ladder sd b)"
    unfolding depth_def same ..
  ultimately show ?case by simp
qed

declare match_loop.simps [simp del]

definition match_against_side ::
  "side \<Rightarrow> int \<Rightarrow> int \<Rightarrow> 64 word \<Rightarrow> 32 word \<Rightarrow> 64 word \<Rightarrow> bool \<Rightarrow> book \<Rightarrow> int outcome" where
  "match_against_side sd qty px_limit taker taker_user ts enable_stp b =
     match_loop sd px_limit taker taker_user ts enable_stp qty 0 b"

subsection \<open>\<^verbatim>\<open>check_fok_liquidity\<close>\<close>

definition MAX_STEPS :: int where "MAX_STEPS = 10000"

text \<open>
  The \<^verbatim>\<open>while\<close> loop of \<^verbatim>\<open>check_fok_liquidity<IsBid>\<close>; \<open>sd\<close> is the taker's side and \<open>pl\<close>
  the opposite ladder. A bid walks the asks upwards, an ask walks the bids downwards.
\<close>

function fok_walk ::
  "side \<Rightarrow> price_levels \<Rightarrow> int \<Rightarrow> int \<Rightarrow> int \<Rightarrow> int \<Rightarrow> int \<Rightarrow> bool option" where
  "fok_walk sd pl qty px_limit available current_px steps =
     (if available < qty \<and> steps < MAX_STEPS then
        if (case sd of Bid \<Rightarrow> current_px > px_limit \<or> current_px = EMPTY_ASK
                      | Ask \<Rightarrow> current_px < px_limit \<or> current_px = EMPTY_BID)
        then Some (available \<ge> qty)
        else if \<not> is_valid_price pl current_px then Some (available \<ge> qty)
        else (case has_level pl current_px of
                None \<Rightarrow> None
              | Some h \<Rightarrow>
                (case (if h then map_option (\<lambda>lv. available + total_qty lv)
                                   (get_level pl current_px)
                       else Some available) of
                   None \<Rightarrow> None
                 | Some available' \<Rightarrow>
                     fok_walk sd pl qty px_limit available'
                       (case sd of Bid \<Rightarrow> current_px + 1 | Ask \<Rightarrow> current_px - 1)
                       (steps + 1)))
      else Some (available \<ge> qty))"
  by pat_completeness auto
termination
  by (relation "measure (\<lambda>(sd, pl, qty, px_limit, available, current_px, steps).
                            nat (MAX_STEPS - steps))") auto

declare fok_walk.simps [simp del]

definition check_fok_liquidity :: "side \<Rightarrow> book \<Rightarrow> int \<Rightarrow> int \<Rightarrow> bool option" where
  "check_fok_liquidity sd b qty px_limit =
     (let best_price = best (opposite sd) (ladder (opposite sd) b) in
      if (case sd of Bid \<Rightarrow> best_price = EMPTY_ASK \<or> best_price > px_limit
                    | Ask \<Rightarrow> best_price = EMPTY_BID \<or> best_price < px_limit)
      then Some False
      else fok_walk sd (ladder (opposite sd) b) qty px_limit 0 best_price 0)"

subsection \<open>\<^verbatim>\<open>submit_limit\<close>, \<^verbatim>\<open>submit_market\<close>, \<^verbatim>\<open>cancel\<close>, \<^verbatim>\<open>modify\<close>\<close>

text \<open>The resting block of \<^verbatim>\<open>submit_limit_side\<close> (the GTC case).\<close>

definition rest_order :: "side \<Rightarrow> order_command \<Rightarrow> int \<Rightarrow> int \<Rightarrow> book \<Rightarrow> exec_result outcome" where
  "rest_order sd cmd filled_q remaining_q b =
     (case idx (ladder sd b) (price_ticks cmd) of
        None \<Rightarrow> Fault AssertionFailure b
      | Some i \<Rightarrow>
          let node = \<lparr>n_id = order_id cmd, n_user = user_id cmd, n_qty = remaining_q,
                      n_ts = recv_ts cmd, n_flags = cmd_flags cmd, n_addr = next_addr b\<rparr>;
              b1 = upd_level sd i (\<lambda>level. enqueue level node) (b\<lparr>next_addr := next_addr b + 1\<rparr>)
          in case (if (case sd of Bid \<Rightarrow> price_ticks cmd > best sd (ladder sd b1)
                                | Ask \<Rightarrow> price_ticks cmd < best sd (ladder sd b1))
                   then set_best sd (ladder sd b1) (price_ticks cmd)
                   else Some (ladder sd b1)) of
               None \<Rightarrow> Fault AssertionFailure b1
             | Some pl \<Rightarrow>
                 let b2 = set_ladder sd pl b1 in
                 (case fm_insert zero_entry (id_index b2) (order_id cmd)
                         \<lparr>e_side = sd, e_price = price_ticks cmd, e_node = n_addr node\<rparr> of
                    None \<Rightarrow> Fault Diverges b2
                  | Some ix \<Rightarrow> finish (ExecResult filled_q remaining_q) (b2\<lparr>id_index := ix\<rparr>)))"

text \<open>The block "match against opposite side" of \<^verbatim>\<open>submit_limit_side\<close>.\<close>

definition match_opposite :: "side \<Rightarrow> order_command \<Rightarrow> book \<Rightarrow> int outcome" where
  "match_opposite sd cmd b =
     (let enable_stp = (cmd_flags cmd AND STP \<noteq> 0);
          opp_best = best (opposite sd) (ladder (opposite sd) b)
      in if opp_best \<noteq> sentinel (opposite sd) \<and>
            (case sd of Bid \<Rightarrow> opp_best \<le> price_ticks cmd
                      | Ask \<Rightarrow> opp_best \<ge> price_ticks cmd)
         then match_against_side (opposite sd) (cmd_qty cmd) (price_ticks cmd)
                (order_id cmd) (user_id cmd) (recv_ts cmd) enable_stp b
         else Done 0 b)"

definition submit_limit_side :: "side \<Rightarrow> order_command \<Rightarrow> book \<Rightarrow> exec_result outcome" where
  "submit_limit_side sd cmd b =
     (case (if tif cmd = FOK then check_fok_liquidity sd b (cmd_qty cmd) (price_ticks cmd)
            else Some True) of
        None \<Rightarrow> Fault AssertionFailure b
      | Some False \<Rightarrow> finish (ExecResult 0 0) b
      | Some True \<Rightarrow>
          (case match_opposite sd cmd b of
             Fault f b' \<Rightarrow> Fault f b'
           | Done filled_q b1 \<Rightarrow>
               let remaining_q = cmd_qty cmd - filled_q in
               if remaining_q > 0 then
                 if tif cmd = IOC then finish (ExecResult filled_q 0) b1
                 else if tif cmd = FOK then finish (ExecResult filled_q 0) b1
                 else rest_order sd cmd filled_q remaining_q b1
               else finish (ExecResult filled_q remaining_q) b1))"

definition submit_limit :: "order_command \<Rightarrow> book \<Rightarrow> exec_result outcome" where
  "submit_limit cmd b =
     (if cmd_side cmd = Bid then submit_limit_side Bid cmd b else submit_limit_side Ask cmd b)"

definition submit_market :: "order_command \<Rightarrow> book \<Rightarrow> exec_result outcome" where
  "submit_market cmd b =
     (let enable_stp = (cmd_flags cmd AND STP \<noteq> 0) in
      case (if cmd_side cmd = Bid
            then match_against_side Ask (cmd_qty cmd) EMPTY_ASK (order_id cmd) (user_id cmd)
                   (recv_ts cmd) enable_stp b
            else match_against_side Bid (cmd_qty cmd) EMPTY_BID (order_id cmd) (user_id cmd)
                   (recv_ts cmd) enable_stp b) of
        Fault f b' \<Rightarrow> Fault f b'
      | Done filled_q b1 \<Rightarrow>
          let remaining_q = cmd_qty cmd - filled_q in
          finish (ExecResult filled_q remaining_q) b1)"

definition cancel :: "64 word \<Rightarrow> book \<Rightarrow> bool outcome" where
  "cancel ident b =
     (case fm_find (id_index b) ident of
        None \<Rightarrow> Done False b
      | Some entry \<Rightarrow>
          let sd = e_side entry; price = e_price entry in
          (case idx (ladder sd b) price of
             None \<Rightarrow> Fault AssertionFailure b
           | Some i \<Rightarrow>
             (case node_at (levels (ladder sd b) i) (e_node entry) of
                None \<Rightarrow> Fault UseAfterFree b
              | Some node \<Rightarrow>
                  let b1 = upd_level sd i (\<lambda>level. level_erase level node) b in
                  (case (if level_empty (levels (ladder sd b1) i)
                         then refresh_best_after_depletion sd b1 else Done () b1) of
                     Fault f b' \<Rightarrow> Fault f b'
                   | Done u b2 \<Rightarrow>
                     (case fm_erase (id_index b2) ident of
                        None \<Rightarrow> Fault Diverges b2
                      | Some ix \<Rightarrow> finish True (b2\<lparr>id_index := ix\<rparr>))))))"

definition modify :: "64 word \<Rightarrow> int \<Rightarrow> int \<Rightarrow> book \<Rightarrow> exec_result outcome" where
  "modify ident new_price new_qty b =
     (case fm_find (id_index b) ident of
        None \<Rightarrow> Done (ExecResult 0 0) b
      | Some entry \<Rightarrow>
          (case idx (ladder (e_side entry) b) (e_price entry) of
             None \<Rightarrow> Fault UseAfterFree b
           | Some i \<Rightarrow>
             (case node_at (levels (ladder (e_side entry) b) i) (e_node entry) of
                None \<Rightarrow> Fault UseAfterFree b
              | Some node \<Rightarrow>
                  if new_price = e_price entry \<and> new_qty < n_qty node then
                    let diff = n_qty node - new_qty;
                        b1 = upd_level (e_side entry) i (\<lambda>level. reduce_qty level node diff) b
                    in finish (ExecResult 0 new_qty) b1
                  else
                    let user = n_user node;
                        flags = n_flags node;
                        sd = e_side entry;
                        (now, b1) = now_ns b
                    in (case cancel ident b1 of
                          Fault f b' \<Rightarrow> Fault f b'
                        | Done ok b2 \<Rightarrow>
                            if \<not> ok then Done (ExecResult 0 0) b2
                            else submit_limit
                                   \<lparr>cmd_type = NewOrder, recv_ts = now, order_id = ident,
                                    user_id = user, price_ticks = new_price, cmd_qty = new_qty,
                                    cmd_side = sd, order_type = Limit, tif = GTC,
                                    cmd_flags = flags\<rparr> b2))))"

subsection \<open>The engine (matching\_engine.cpp)\<close>

text \<open>
  \<^verbatim>\<open>MatchingEngine\<close> builds the book over one band with an index of 8192 slots and
  registers both callbacks.
\<close>

definition new_book :: "32 word \<Rightarrow> price_band \<Rightarrow> (nat \<Rightarrow> 64 word) \<Rightarrow> book" where
  "new_book symbol bd clk =
     \<lparr>symbol_id = symbol, bids = PriceLevelsArray bd, asks = PriceLevelsArray bd,
      next_addr = 1,
      id_index = \<lparr>entries = (\<lambda>_. (0, zero_entry)), capacity = 8192, fm_size = 0\<rparr>,
      on_trade_set = True, on_book_update_set = True, out = [],
      clock = clk, clock_reads = 0\<rparr>"

text \<open>One iteration of \<^verbatim>\<open>MatchingEngine::run\<close>: the dispatch on the command type.\<close>

definition process :: "order_command \<Rightarrow> book \<Rightarrow> unit outcome" where
  "process cmd b =
     (case cmd_type cmd of
        NewOrder \<Rightarrow>
          (case (if order_type cmd = Limit then submit_limit cmd b else submit_market cmd b) of
             Fault f b' \<Rightarrow> Fault f b' | Done r b' \<Rightarrow> Done () b')
      | CancelOrder \<Rightarrow>
          (case cancel (order_id cmd) b of Fault f b' \<Rightarrow> Fault f b' | Done r b' \<Rightarrow> Done () b')
      | ModifyOrder \<Rightarrow>
          (case modify (order_id cmd) (price_ticks cmd) (cmd_qty cmd) b of
             Fault f b' \<Rightarrow> Fault f b' | Done r b' \<Rightarrow> Done () b'))"

fun run :: "order_command list \<Rightarrow> book \<Rightarrow> unit outcome" where
  "run [] b = Done () b"
| "run (cmd # cmds) b =
     (case process cmd b of Fault f b' \<Rightarrow> Fault f b' | Done u b' \<Rightarrow> run cmds b')"


section \<open>Properties of the order index\<close>

lemma slot_8798: "slot 8192 (fm_hash 8798) = 8191"
  by (simp add: slot_def fm_hash_def)

lemma slot_5501: "slot 8192 (fm_hash 5501) = 0"
  by (simp add: slot_def fm_hash_def)

lemma grow_cap_8192: "grow_cap 16 8192 = 8192"
  by (simp add: grow_cap.simps)

lemma next_slot_8191: "next_slot 8192 8191 = 0"
  by (simp add: next_slot_def slot_def)

lemma next_slot_0: "next_slot 8192 0 = 1"
  by (simp add: next_slot_def slot_def)

lemma fm_new_8192:
  "fm_new z 8192 = Some \<lparr>entries = (\<lambda>_. (0, z)), capacity = 8192, fm_size = 0\<rparr>"
  by (simp add: fm_new_def fm_resize_def grow_cap_8192)

lemma fm_insert_8798:
  "fm_insert z \<lparr>entries = (\<lambda>_. (0, z)), capacity = 8192, fm_size = 0\<rparr> 8798 a
   = Some \<lparr>entries = (\<lambda>_. (0, z))(8191 := (8798, a)), capacity = 8192, fm_size = 1\<rparr>"
  by (simp add: fm_insert_def insert_internal_def slot_8798 insert_probe.simps)

lemma fm_insert_5501:
  "fm_insert z \<lparr>entries = (\<lambda>_. (0, z))(8191 := (8798, a)), capacity = 8192, fm_size = 1\<rparr>
     5501 c
   = Some \<lparr>entries = (\<lambda>_. (0, z))(8191 := (8798, a), 0 := (5501, c)),
            capacity = 8192, fm_size = 2\<rparr>"
  by (simp add: fm_insert_def insert_internal_def slot_5501 insert_probe.simps)

lemma fm_erase_8798:
  "fm_erase \<lparr>entries = (\<lambda>_. (0, z))(8191 := (8798, a), 0 := (5501, c)),
             capacity = 8192, fm_size = 2\<rparr> 8798
   = Some \<lparr>entries = (\<lambda>_. (0, z))(8191 := (5501, c), 0 := (0, c)),
            capacity = 8192, fm_size = 1\<rparr>"
  by (simp add: fm_erase_def slot_8798 slot_5501 next_slot_8191 next_slot_0
      erase_probe.simps erase_shift.simps fun_upd_twist)

lemma fm_find_5501_lost:
  "fm_find \<lparr>entries = (\<lambda>_. (0, z))(8191 := (5501, c), 0 := (0, c)),
            capacity = 8192, fm_size = 1\<rparr> 5501 = None"
  by (simp add: fm_find_def slot_5501 find_probe.simps)

lemma fm_find_5501_present:
  "fm_find \<lparr>entries = (\<lambda>_. (0, z))(8191 := (8798, a), 0 := (5501, c)),
            capacity = 8192, fm_size = 2\<rparr> 5501 = Some c"
  by (simp add: fm_find_def slot_5501 find_probe.simps)

text \<open>
  C10. On the order index as the book creates it (capacity 8192), the keys 8798 and 5501
  are distinct and non-zero; 8798 hashes to the last slot, 5501 to slot 0. After
  \<^verbatim>\<open>insert(8798)\<close>, \<^verbatim>\<open>insert(5501)\<close>, \<^verbatim>\<open>erase(8798)\<close>, every call returns, and
  \<^verbatim>\<open>find(5501)\<close> is null although 5501 was inserted and never erased: the backward
  shift, wrapping around the end of the table, moved 5501 out of its probe chain.
\<close>

theorem C10_erase_wrap_loses_key:
  "Option.bind (fm_new (0::nat) 8192) (\<lambda>m0.
   Option.bind (fm_insert 0 m0 8798 1) (\<lambda>m1.
   Option.bind (fm_insert 0 m1 5501 2) (\<lambda>m2.
   Option.bind (fm_erase m2 8798) (\<lambda>m3.
   Some (fm_find m2 5501, fm_find m3 5501)))))
   = Some (Some 2, None)"
  by (simp only: fm_new_8192 fm_insert_8798 fm_insert_5501 fm_erase_8798
      fm_find_5501_present fm_find_5501_lost Option.bind.simps)

section \<open>Frame lemmas\<close>

text \<open>The parts of the book that matching and best-price refresh never touch.\<close>

definition static :: "book \<Rightarrow> 32 word \<times> bool \<times> bool \<times> (nat \<Rightarrow> 64 word) \<times> nat \<times> nat" where
  "static b = (symbol_id b, on_trade_set b, on_book_update_set b, clock b, clock_reads b, next_addr b)"

lemma static_simps [simp]:
  "static (emit_trade b t) = static b"
  "static (upd_level sd i f b) = static b"
  "static (set_ladder sd pl b) = static b"
  "static (b\<lparr>id_index := ix\<rparr>) = static b"
  by (simp_all add: static_def emit_trade_def upd_level_def set_ladder_def split: side.splits)

lemma out_simps [simp]:
  "out (upd_level sd i f b) = out b"
  "out (set_ladder sd pl b) = out b"
  by (simp_all add: upd_level_def set_ladder_def split: side.splits)

lemma ladder_upd_level_other [simp]:
  "sd' \<noteq> sd \<Longrightarrow> ladder sd' (upd_level sd i f b) = ladder sd' b"
  by (cases sd; cases sd') (simp_all add: upd_level_def ladder_def set_ladder_def)

lemma ladder_set_ladder_other [simp]:
  "sd' \<noteq> sd \<Longrightarrow> ladder sd' (set_ladder sd pl b) = ladder sd' b"
  by (cases sd; cases sd') (simp_all add: ladder_def set_ladder_def)

lemma levels_upd_level [simp]:
  "levels (ladder sd (upd_level sd i f b)) = (levels (ladder sd b))(i := f (levels (ladder sd b) i))"
  by (simp add: upd_level_def)

lemma opposite_neq [simp]: "opposite sd \<noteq> sd" "sd \<noteq> opposite sd"
  by (cases sd; simp add: opposite_def)+

lemma opposite_opposite [simp]: "opposite (opposite sd) = sd"
  by (cases sd; simp add: opposite_def)

lemma id_index_simps [simp]:
  "id_index (upd_level sd i f b) = id_index b"
  "id_index (set_ladder sd pl b) = id_index b"
  "id_index (emit_trade b t) = id_index b"
  by (simp_all add: upd_level_def set_ladder_def emit_trade_def split: side.splits)

lemma out_id_index_update [simp]: "out (b\<lparr>id_index := ix\<rparr>) = out b"
  by simp

text \<open>
  What a walk over the level in slot \<open>i\<close> of side \<open>sd\<close> may change: that level, the index,
  and the output, to which it only appends trades.
\<close>

definition match_rel :: "side \<Rightarrow> nat \<Rightarrow> book \<Rightarrow> book \<Rightarrow> bool" where
  "match_rel sd i b b' =
     (static b' = static b \<and> ladder (opposite sd) b' = ladder (opposite sd) b \<and>
      band (ladder sd b') = band (ladder sd b) \<and>
      best sd (ladder sd b') = best sd (ladder sd b) \<and>
      (\<forall>j. j \<noteq> i \<longrightarrow> levels (ladder sd b') j = levels (ladder sd b) j) \<and>
      n_addr ` set (nodes (levels (ladder sd b') i)) \<subseteq> n_addr ` set (nodes (levels (ladder sd b) i)) \<and>
      (\<exists>tr. out b' = out b @ map Trade tr))"

lemma match_rel_refl [simp]: "match_rel sd i b b"
  by (auto simp: match_rel_def intro: exI[of _ "[]"])

lemma match_rel_trans: "match_rel sd i a b \<Longrightarrow> match_rel sd i b c \<Longrightarrow> match_rel sd i a c"
  unfolding match_rel_def
  by (elim conjE exE, intro conjI) (auto simp flip: map_append)

lemma ladder_out_update [simp]: "ladder sd (b\<lparr>out := x\<rparr>) = ladder sd b"
  by (simp add: ladder_def split: side.splits)

lemma ladder_clock_reads_update [simp]: "ladder sd (b\<lparr>clock_reads := x\<rparr>) = ladder sd b"
  by (simp add: ladder_def split: side.splits)

lemma ladder_next_addr_update [simp]: "ladder sd (b\<lparr>next_addr := x\<rparr>) = ladder sd b"
  by (simp add: ladder_def split: side.splits)

lemma static_out_update [simp]: "static (b\<lparr>out := x\<rparr>) = static b"
  by (simp add: static_def)

lemma match_rel_emit_trade: "match_rel sd i b (emit_trade b t)"
  unfolding match_rel_def
  by (cases "on_trade_set b")
     (auto simp: emit_trade_def intro: exI[of _ "[]"] exI[of _ "[t]"])

lemma match_rel_level_erase: "match_rel sd i b (upd_level sd i (\<lambda>lv. level_erase lv n) b)"
  by (auto simp: match_rel_def level_erase_def intro: exI[of _ "[]"])

lemma reduce_qty_addrs [simp]: "map n_addr (nodes (reduce_qty lv n r)) = map n_addr (nodes lv)"
  by (simp add: reduce_qty_def o_def if_distrib cong: if_cong)

lemma reduce_qty_addr_set [simp]:
  "n_addr ` set (nodes (reduce_qty lv n r)) = n_addr ` set (nodes lv)"
  using reduce_qty_addrs[of lv n r] by (metis set_map)

lemma match_rel_reduce_qty: "match_rel sd i b (upd_level sd i (\<lambda>lv. reduce_qty lv n r) b)"
  by (auto simp: match_rel_def simp del: reduce_qty_addrs intro: exI[of _ "[]"])

lemma match_rel_id_index: "match_rel sd i b (b\<lparr>id_index := ix\<rparr>)"
  by (auto simp: match_rel_def static_def best_def ladder_def intro: exI[of _ "[]"] split: side.splits)

lemma match_level_rel:
  "match_level sd i bp taker tu ts stp makers qty tf b = Done r b' \<Longrightarrow> match_rel sd i b b'"
proof (induction makers arbitrary: qty tf b)
  case Nil
  then show ?case by simp
next
  case (Cons maker rest)
  show ?case
  proof (cases "\<not> qty > 0")
    case True
    with Cons.prems show ?thesis by simp
  next
    case pos: False
    show ?thesis
    proof (cases "stp \<and> n_user maker = tu")
      case True
      with pos Cons.prems Cons.IH show ?thesis by simp
    next
      case False
      define t where "t = \<lparr>t_ts = ts, taker_id = taker, maker_id = n_id maker,
                            t_symbol = symbol_id b, t_price = bp, t_qty = min qty (n_qty maker)\<rparr>"
      define b1 where "b1 = (if on_trade_set b then emit_trade b t else b)"
      have b1: "match_rel sd i b b1"
        by (simp add: b1_def match_rel_emit_trade)
      show ?thesis
      proof (cases "min qty (n_qty maker) \<ge> n_qty maker")
        case True
        define b2 where "b2 = upd_level sd i (\<lambda>lv. level_erase lv maker) b1"
        from True pos False Cons.prems obtain ix where
          ix: "fm_erase (id_index b2) (n_id maker) = Some ix"
          and rec: "match_level sd i bp taker tu ts stp rest (qty - min qty (n_qty maker))
                 (tf + min qty (n_qty maker)) (b2\<lparr>id_index := ix\<rparr>) = Done r b'"
          by (auto simp: Let_def b1_def b2_def t_def split: option.splits if_splits)
        have "match_rel sd i b1 (b2\<lparr>id_index := ix\<rparr>)"
          unfolding b2_def by (rule match_rel_trans[OF match_rel_level_erase match_rel_id_index])
        with b1 Cons.IH[OF rec] show ?thesis
          by (blast intro: match_rel_trans)
      next
        case part: False
        with pos False Cons.prems have
          rec: "match_level sd i bp taker tu ts stp rest (qty - min qty (n_qty maker))
                 (tf + min qty (n_qty maker))
                 (upd_level sd i (\<lambda>lv. reduce_qty lv maker (min qty (n_qty maker))) b1) = Done r b'"
          by (auto simp: Let_def b1_def t_def split: option.splits if_splits)
        from Cons.IH[OF rec] b1 match_rel_reduce_qty show ?thesis
          by (blast intro: match_rel_trans)
      qed
    qed
  qed
qed


lemma set_best_levels: "set_best sd pl px = Some pl' \<Longrightarrow> levels pl' = levels pl"
  by (auto simp: set_best_def split: if_splits side.splits)

lemma set_best_other: "set_best sd pl px = Some pl' \<Longrightarrow> best (opposite sd) pl' = best (opposite sd) pl"
  by (auto simp: set_best_def best_def opposite_def split: if_splits side.splits)

lemma refresh_scan_frame:
  "refresh_scan sd pl cur i = Some pl' \<Longrightarrow>
   levels pl' = levels pl \<and> band pl' = band pl \<and> best (opposite sd) pl' = best (opposite sd) pl"
proof -
  assume a: "refresh_scan sd pl cur i = Some pl'"
  from refresh_scan_result[of i pl sd cur] obtain px where
    "refresh_scan sd pl cur i = set_best sd pl px" by blast
  with a have "set_best sd pl px = Some pl'" by simp
  then show ?thesis
    by (simp add: set_best_levels set_best_band set_best_other)
qed

text \<open>\<^verbatim>\<open>refresh_best_after_depletion\<close> changes the cached best tick of its side, nothing else.\<close>

lemma refresh_frame:
  assumes "refresh_best_after_depletion sd b = Done u b'"
  shows "static b' = static b" "out b' = out b" "id_index b' = id_index b"
    "ladder (opposite sd) b' = ladder (opposite sd) b"
    "levels (ladder sd b') = levels (ladder sd b)" "band (ladder sd b') = band (ladder sd b)"
  using assms
  by (auto simp: refresh_best_after_depletion_def Let_def split: option.splits if_splits
      dest: refresh_scan_frame)

lemma refresh_total: "\<exists>b'. refresh_best_after_depletion sd b = Done () b'"
  using refresh_scan_total[of sd "ladder sd b" "best sd (ladder sd b)" 1]
  by (auto simp: refresh_best_after_depletion_def Let_def split: option.splits)

subsection \<open>The outer matching loop\<close>

definition cur_slot :: "side \<Rightarrow> book \<Rightarrow> nat" where
  "cur_slot sd b = nat (best sd (ladder sd b) - min_tick (band (ladder sd b)))"

text \<open>The loop leaves without touching the level: no quantity, no liquidity, or no cross.\<close>

definition stops :: "side \<Rightarrow> int \<Rightarrow> int \<Rightarrow> book \<Rightarrow> bool" where
  "stops sd px_limit qty b =
     (\<not> qty > 0 \<or> best sd (ladder sd b) = sentinel sd \<or>
      level_empty (levels (ladder sd b) (cur_slot sd b)) \<or>
      (case sd of Bid \<Rightarrow> best sd (ladder sd b) < px_limit
                | Ask \<Rightarrow> best sd (ladder sd b) > px_limit))"

lemma match_loop_stop:
  "stops sd lim qty b \<Longrightarrow> match_loop sd lim taker tu ts stp qty tf b = Done tf b"
  by (subst match_loop.simps)
     (auto simp: stops_def best_level_ptr_def cur_slot_def Let_def split: option.splits)

lemma match_loop_step:
  "\<not> stops sd lim qty b \<Longrightarrow>
   match_loop sd lim taker tu ts stp qty tf b =
     (case match_level sd (cur_slot sd b) (best sd (ladder sd b)) taker tu ts stp
             (nodes (levels (ladder sd b) (cur_slot sd b))) qty tf b of
        Fault f b' \<Rightarrow> Fault f b'
      | Done r b1 \<Rightarrow>
          if level_empty (levels (ladder sd b1) (cur_slot sd b))
          then (case refresh_best_after_depletion sd b1 of
                  Fault f b' \<Rightarrow> Fault f b'
                | Done u b2 \<Rightarrow> match_loop sd lim taker tu ts stp (fst r) (snd r) b2)
          else Done (snd r) b1)"
  unfolding stops_def cur_slot_def
  by (subst match_loop.simps)
     (auto simp: best_level_ptr_def Let_def split: option.splits)

text \<open>
  An invariant rule for the loop: \<open>I\<close> holds whenever the loop is entered, \<open>Q\<close> when it is
  left.
\<close>

lemma match_loop_rule:
  assumes "match_loop sd lim taker tu ts stp qty tf b = Done res bf"
    and "I qty tf b"
    and stop: "\<And>qty tf b. I qty tf b \<Longrightarrow> stops sd lim qty b \<Longrightarrow> Q tf b"
    and walk: "\<And>qty tf b r b1. I qty tf b \<Longrightarrow> \<not> stops sd lim qty b \<Longrightarrow>
        match_level sd (cur_slot sd b) (best sd (ladder sd b)) taker tu ts stp
          (nodes (levels (ladder sd b) (cur_slot sd b))) qty tf b = Done r b1 \<Longrightarrow>
        \<not> level_empty (levels (ladder sd b1) (cur_slot sd b)) \<Longrightarrow> Q (snd r) b1"
    and again: "\<And>qty tf b r b1 b2. I qty tf b \<Longrightarrow> \<not> stops sd lim qty b \<Longrightarrow>
        match_level sd (cur_slot sd b) (best sd (ladder sd b)) taker tu ts stp
          (nodes (levels (ladder sd b) (cur_slot sd b))) qty tf b = Done r b1 \<Longrightarrow>
        level_empty (levels (ladder sd b1) (cur_slot sd b)) \<Longrightarrow>
        refresh_best_after_depletion sd b1 = Done () b2 \<Longrightarrow> I (fst r) (snd r) b2"
  shows "Q res bf"
  using assms(1,2)
proof (induction "depth sd (ladder sd b)" arbitrary: qty tf b rule: less_induct)
  case less
  show ?case
  proof (cases "stops sd lim qty b")
    case True
    with less.prems stop[of qty tf b] show ?thesis
      by (simp add: match_loop_stop)
  next
    case False
    let ?i = "cur_slot sd b"
    from less.prems(1) False obtain r b1 where
      ml: "match_level sd ?i (best sd (ladder sd b)) taker tu ts stp
             (nodes (levels (ladder sd b) ?i)) qty tf b = Done r b1"
      by (auto simp: match_loop_step split: outcome.splits)
    show ?thesis
    proof (cases "level_empty (levels (ladder sd b1) ?i)")
      case ne: False
      with less.prems(1) False ml have "res = snd r" "bf = b1"
        by (auto simp: match_loop_step)
      with walk[OF less.prems(2) False ml ne] show ?thesis by simp
    next
      case True
      from less.prems(1) False ml True obtain b2 where
        rf: "refresh_best_after_depletion sd b1 = Done () b2"
        and rec: "match_loop sd lim taker tu ts stp (fst r) (snd r) b2 = Done res bf"
        by (auto simp: match_loop_step split: outcome.splits)
      have inv: "I (fst r) (snd r) b2"
        by (rule again[OF less.prems(2) False ml True rf])
      from False have ne: "best sd (ladder sd b) \<noteq> sentinel sd"
        by (simp add: stops_def)
      from match_level_rel[OF ml] have same: "best sd (ladder sd b1) = best sd (ladder sd b)"
        "band (ladder sd b1) = band (ladder sd b)" by (simp_all add: match_rel_def)
      have "depth sd (ladder sd b1) = depth sd (ladder sd b)"
        unfolding depth_def same ..
      with refresh_depth[OF rf] ne same have "depth sd (ladder sd b2) < depth sd (ladder sd b)"
        by simp
      from less.hyps[OF this rec inv] show ?thesis .
    qed
  qed
qed


text \<open>What matching against side \<open>sd\<close> may change.\<close>

definition loop_rel :: "side \<Rightarrow> book \<Rightarrow> book \<Rightarrow> bool" where
  "loop_rel sd b b' =
     (static b' = static b \<and> ladder (opposite sd) b' = ladder (opposite sd) b \<and>
      band (ladder sd b') = band (ladder sd b) \<and>
      (\<forall>j. n_addr ` set (nodes (levels (ladder sd b') j)) \<subseteq>
           n_addr ` set (nodes (levels (ladder sd b) j))) \<and>
      (\<exists>tr. out b' = out b @ map Trade tr))"

lemma loop_rel_refl [simp]: "loop_rel sd b b"
  by (auto simp: loop_rel_def intro: exI[of _ "[]"])

lemma loop_rel_trans: "loop_rel sd a b \<Longrightarrow> loop_rel sd b c \<Longrightarrow> loop_rel sd a c"
  unfolding loop_rel_def
  by (elim conjE exE, intro conjI) (auto simp flip: map_append, blast)

lemma match_rel_loop_rel: "match_rel sd i b b' \<Longrightarrow> loop_rel sd b b'"
  unfolding match_rel_def loop_rel_def
  by (elim conjE, intro conjI allI, simp_all) (metis order_refl)

lemma refresh_loop_rel: "refresh_best_after_depletion sd b = Done u b' \<Longrightarrow> loop_rel sd b b'"
  by (auto simp: loop_rel_def refresh_frame intro: exI[of _ "[]"])

lemma match_against_side_rel:
  assumes "match_against_side sd qty lim taker tu ts stp b = Done res bf"
  shows "loop_rel sd b bf"
  using assms[unfolded match_against_side_def]
proof (rule match_loop_rule[where I = "\<lambda>_ _ b'. loop_rel sd b b'" and Q = "\<lambda>_ b'. loop_rel sd b b'"])
  show "loop_rel sd b b" by simp
qed (blast intro: loop_rel_trans match_rel_loop_rel match_level_rel refresh_loop_rel)+

lemma match_opposite_rel:
  "match_opposite sd cmd b = Done res bf \<Longrightarrow> loop_rel (opposite sd) b bf"
  by (auto simp: match_opposite_def Let_def split: if_splits dest: match_against_side_rel)

subsection \<open>The book update\<close>

lemma emit_book_update_Some:
  "emit_book_update b = Some b' \<Longrightarrow> on_book_update_set b \<Longrightarrow>
   \<exists>bq aq. b' = b\<lparr>clock_reads := clock_reads b + 1,
                  out := out b @ [Update \<lparr>u_ts = clock b (clock_reads b), u_symbol = symbol_id b,
                     u_best_bid = pl_best_bid (bids b), u_best_ask = pl_best_ask (asks b),
                     bid_qty = bq, ask_qty = aq\<rparr>]\<rparr>"
  by (auto simp: emit_book_update_def Let_def now_ns_def split: option.splits if_splits)

lemma finish_Done:
  "finish r b = Done r' b' \<Longrightarrow> on_book_update_set b \<Longrightarrow>
   r' = r \<and> (\<exists>u. b' = b\<lparr>clock_reads := clock_reads b + 1, out := out b @ [Update u]\<rparr>)"
  by (auto simp: finish_def split: option.splits dest!: emit_book_update_Some)

lemma finish_Fault: "finish r b = Fault f b' \<Longrightarrow> f = AssertionFailure \<and> b' = b"
  by (auto simp: finish_def split: option.splits)

lemmas eval_defs =
  process_def submit_limit_def submit_limit_side_def match_opposite_def submit_market_def
  cancel_def modify_def rest_order_def finish_def emit_book_update_def emit_trade_def now_ns_def
  upd_level_def ladder_def set_ladder_def opposite_def sentinel_def best_def set_best_def idx_def
  get_level_def has_level_def best_level_ptr_def is_valid_price_def enqueue_def level_erase_def
  reduce_qty_def node_at_def level_empty_def empty_level_def PriceLevelsArray_def new_book_def
  ExecResult_def check_fok_liquidity_def match_against_side_def refresh_best_after_depletion_def
  EMPTY_BID_def EMPTY_ASK_def STP_def MAX_SEARCH_def MAX_STEPS_def scan_px_def past_sentinel_def
  zero_entry_def fm_insert_def insert_internal_def fm_erase_def fm_find_def slot_def fm_hash_def
  next_slot_def Let_def match_loop.simps refresh_scan.simps fok_walk.simps find_probe.simps
  insert_probe.simps erase_probe.simps erase_shift.simps

section \<open>Resting outside the band\<close>

text \<open>
  C9 (as amended). A limit order that is neither IOC nor FOK, whose tick is outside the
  band of its ladder and whose residual after matching is positive, is stopped by the
  bounds assertion of \<^verbatim>\<open>PriceLevelsArray::idx\<close> before any enqueue: the command does not
  return, it ends in an assertion failure. The state it stops in is the state reached
  by matching: no node was allocated, the ladder of its own side is unchanged, no node
  appeared on the opposite side, and the output holds the trades already emitted (and
  no book update).
\<close>

theorem C9_out_of_band_rest_aborts:
  assumes "tif cmd \<noteq> IOC" "tif cmd \<noteq> FOK"
    and "\<not> is_valid_price (ladder (cmd_side cmd) b) (price_ticks cmd)"
    and "match_opposite (cmd_side cmd) cmd b = Done filled_q b1"
    and "cmd_qty cmd - filled_q > 0"
  shows "submit_limit cmd b = Fault AssertionFailure b1 \<and>
         next_addr b1 = next_addr b \<and>
         ladder (cmd_side cmd) b1 = ladder (cmd_side cmd) b \<and>
         (\<forall>j. n_addr ` set (nodes (levels (ladder (opposite (cmd_side cmd)) b1) j)) \<subseteq>
              n_addr ` set (nodes (levels (ladder (opposite (cmd_side cmd)) b) j))) \<and>
         (\<exists>tr. out b1 = out b @ map Trade tr)"
proof -
  let ?sd = "cmd_side cmd"
  from match_opposite_rel[OF assms(4)] have rel: "loop_rel (opposite ?sd) b b1" .
  then have lad: "ladder ?sd b1 = ladder ?sd b" and st: "static b1 = static b"
    by (simp_all add: loop_rel_def)
  from assms(3) lad have "idx (ladder ?sd b1) (price_ticks cmd) = None"
    by (simp add: idx_def is_valid_price_def)
  then have "rest_order ?sd cmd filled_q (cmd_qty cmd - filled_q) b1 = Fault AssertionFailure b1"
    by (simp add: rest_order_def)
  with assms have "submit_limit_side ?sd cmd b = Fault AssertionFailure b1"
    by (simp add: submit_limit_side_def)
  then have "submit_limit cmd b = Fault AssertionFailure b1"
    by (cases ?sd) (simp_all add: submit_limit_def)
  with rel lad st show ?thesis
    by (simp add: loop_rel_def static_def)
qed

definition band_100_200 :: price_band where
  "band_100_200 = \<lparr>min_tick = 100, max_tick = 200, tick_size = 1\<rparr>"

definition limit_order ::
  "64 word \<Rightarrow> 32 word \<Rightarrow> side \<Rightarrow> int \<Rightarrow> int \<Rightarrow> time_in_force \<Rightarrow> 32 word \<Rightarrow> order_command" where
  "limit_order ident user sd px q t fl =
     \<lparr>cmd_type = NewOrder, recv_ts = 0, order_id = ident, user_id = user, price_ticks = px,
      cmd_qty = q, cmd_side = sd, order_type = Limit, tif = t, cmd_flags = fl\<rparr>"

text \<open>
  C9, counterexample: a GTC bid at tick 250 on an empty book with band 100..200 does not
  complete.
\<close>

theorem C9_counterexample:
  "submit_limit (limit_order 1 7 Bid 250 10 GTC 0) (new_book 1 band_100_200 (\<lambda>_. 0))
   = Fault AssertionFailure (new_book 1 band_100_200 (\<lambda>_. 0))"
  by (simp add: eval_defs limit_order_def band_100_200_def)

theorem C9_witness:
  "submit_limit (limit_order 1 7 Bid 250 10 GTC 0) (new_book 1 band_100_200 (\<lambda>_. 0))
   = Fault AssertionFailure (new_book 1 band_100_200 (\<lambda>_. 0)) \<and>
   out (new_book 1 band_100_200 (\<lambda>_. 0)) = []"
proof -
  let ?cmd = "limit_order 1 7 Bid 250 10 GTC 0" and ?b = "new_book 1 band_100_200 (\<lambda>_. 0)"
  have 1: "tif ?cmd \<noteq> IOC" "tif ?cmd \<noteq> FOK" by (simp_all add: limit_order_def)
  have 2: "\<not> is_valid_price (ladder (cmd_side ?cmd) ?b) (price_ticks ?cmd)"
    by (simp add: eval_defs limit_order_def band_100_200_def)
  have 3: "match_opposite (cmd_side ?cmd) ?cmd ?b = Done 0 ?b"
    by (simp add: eval_defs limit_order_def band_100_200_def)
  have 4: "cmd_qty ?cmd - 0 > 0" by (simp add: limit_order_def)
  from C9_out_of_band_rest_aborts[OF 1 2 3 4] show ?thesis
    by (simp add: new_book_def)
qed


section \<open>Market orders and IOC limit orders\<close>

lemma match_against_side_empty:
  "best sd (ladder sd b) = sentinel sd \<Longrightarrow>
   match_against_side sd qty lim taker tu ts stp b = Done 0 b"
  by (simp add: match_against_side_def match_loop_stop stops_def)

definition map_result :: "('a \<Rightarrow> 'b) \<Rightarrow> 'a outcome \<Rightarrow> 'b outcome" where
  "map_result g oc = (case oc of Done r b \<Rightarrow> Done (g r) b | Fault f b \<Rightarrow> Fault f b)"

lemma map_result_finish [simp]: "map_result g (finish r b) = finish (g r) b"
  by (simp add: map_result_def finish_def split: option.splits)

text \<open>
  C7 (as amended). With the cached opposite best inside the \<^verbatim>\<open>int64_t\<close> range,
  \<^verbatim>\<open>submit_market(cmd)\<close> and \<^verbatim>\<open>submit_limit\<close> of the same command with TIF = IOC and the
  opposite sentinel as limit produce the same events, the same final book and the same
  \<open>filled\<close>; they differ in \<open>remaining\<close> only: the market order reports
  \<open>cmd.qty - filled\<close>, the IOC limit order reports 0 for a positive residual.
\<close>

theorem C7_market_as_ioc_limit:
  assumes "(case cmd_side cmd of
              Bid \<Rightarrow> pl_best_ask (asks b) \<le> EMPTY_ASK
            | Ask \<Rightarrow> EMPTY_BID \<le> pl_best_bid (bids b))"
  shows "submit_limit (cmd\<lparr>price_ticks := sentinel (opposite (cmd_side cmd)), tif := IOC\<rparr>) b
         = map_result (\<lambda>r. r\<lparr>remaining := (if remaining r > 0 then 0 else remaining r)\<rparr>)
             (submit_market cmd b)"
proof (cases "cmd_side cmd")
  case Bid
  let ?m = "match_against_side Ask (cmd_qty cmd) EMPTY_ASK (order_id cmd) (user_id cmd)
              (recv_ts cmd) (cmd_flags cmd AND STP \<noteq> 0) b"
  have mo: "match_opposite Bid (cmd\<lparr>price_ticks := EMPTY_ASK, tif := IOC\<rparr>) b = ?m"
    using assms Bid match_against_side_empty[of Ask b]
    by (auto simp: match_opposite_def opposite_def sentinel_def best_def ladder_def)
  show ?thesis
    using Bid
    by (cases ?m)
       (simp_all add: submit_limit_def submit_limit_side_def submit_market_def mo opposite_def
          sentinel_def map_result_def[of _ "Fault _ _"] ExecResult_def Let_def)
next
  case Ask
  let ?m = "match_against_side Bid (cmd_qty cmd) EMPTY_BID (order_id cmd) (user_id cmd)
              (recv_ts cmd) (cmd_flags cmd AND STP \<noteq> 0) b"
  have mo: "match_opposite Ask (cmd\<lparr>price_ticks := EMPTY_BID, tif := IOC\<rparr>) b = ?m"
    using assms Ask match_against_side_empty[of Bid b]
    by (auto simp: match_opposite_def opposite_def sentinel_def best_def ladder_def)
  show ?thesis
    using Ask
    by (cases ?m)
       (simp_all add: submit_limit_def submit_limit_side_def submit_market_def mo opposite_def
          sentinel_def map_result_def[of _ "Fault _ _"] ExecResult_def Let_def)
qed

text \<open>The book after a list of commands, whether the last one returned or not.\<close>

definition after :: "order_command list \<Rightarrow> book \<Rightarrow> book" where
  "after cmds b = (case run cmds b of Done u b' \<Rightarrow> b' | Fault f b' \<Rightarrow> b')"

definition result_of :: "exec_result outcome \<Rightarrow> (int \<times> int) option" where
  "result_of oc = (case oc of Done r b \<Rightarrow> Some (filled r, remaining r) | Fault f b \<Rightarrow> None)"

text \<open>A book holding one ask: 5 lots at tick 150, order 1 of user 7.\<close>

definition book_ask5 :: book where
  "book_ask5 = after [limit_order 1 7 Ask 150 5 GTC 0] (new_book 1 band_100_200 (\<lambda>_. 0))"

lemma book_with_ask_5:
  "book_ask5 =
   \<lparr>symbol_id = 1,
    bids = PriceLevelsArray band_100_200,
    asks = \<lparr>band = band_100_200,
            levels = (\<lambda>_. empty_level)
              (50 := \<lparr>nodes = [\<lparr>n_id = 1, n_user = 7, n_qty = 5, n_ts = 0, n_flags = 0,
                                   n_addr = 1\<rparr>], total_qty = 5\<rparr>),
            pl_best_bid = EMPTY_BID, pl_best_ask = 150\<rparr>,
    next_addr = 2,
    id_index = \<lparr>entries = (\<lambda>_. (0, zero_entry))
                   (slot 8192 (fm_hash 1) := (1, \<lparr>e_side = Ask, e_price = 150, e_node = 1\<rparr>)),
                capacity = 8192, fm_size = 1\<rparr>,
    on_trade_set = True, on_book_update_set = True,
    out = [Update \<lparr>u_ts = 0, u_symbol = 1, u_best_bid = EMPTY_BID, u_best_ask = 150,
                   bid_qty = 0, ask_qty = 5\<rparr>],
    clock = (\<lambda>_. 0), clock_reads = 1\<rparr>"
  by (simp add: book_ask5_def after_def eval_defs limit_order_def band_100_200_def)

text \<open>
  C7, counterexample: against a resting ask of 5 at 150, a market buy of 10 returns
  \<open>{filled = 5, remaining = 5}\<close>, the IOC limit buy at \<open>EMPTY_ASK\<close> returns
  \<open>{filled = 5, remaining = 0}\<close>.
\<close>

theorem C7_counterexample:
  "result_of (submit_market (limit_order 2 8 Bid 0 10 GTC 0)
     book_ask5) = Some (5, 5) \<and>
   result_of (submit_limit (limit_order 2 8 Bid EMPTY_ASK 10 IOC 0)
     book_ask5) = Some (5, 0)"
  unfolding book_with_ask_5
  by (simp add: result_of_def eval_defs limit_order_def band_100_200_def)

section \<open>Book updates per command\<close>

definition is_update :: "any_event \<Rightarrow> bool" where
  "is_update e = (case e of Update u \<Rightarrow> True | Trade t \<Rightarrow> False)"

lemma static_flag: "static b' = static b \<Longrightarrow> on_book_update_set b' = on_book_update_set b"
  by (simp add: static_def)

lemma static_clock_reads_update [simp]:
  "static (b\<lparr>clock_reads := n\<rparr>) = (symbol_id b, on_trade_set b, on_book_update_set b, clock b, n, next_addr b)"
  by (simp add: static_def)

lemma on_book_update_set_simps [simp]:
  "on_book_update_set (upd_level sd i f b) = on_book_update_set b"
  "on_book_update_set (set_ladder sd pl b) = on_book_update_set b"
  "on_book_update_set (emit_trade b t) = on_book_update_set b"
  by (simp_all add: upd_level_def set_ladder_def emit_trade_def split: side.splits)

lemma rest_order_out:
  assumes "rest_order sd cmd f r b = Done res b'" "on_book_update_set b"
  shows "\<exists>u. out b' = out b @ [Update u]" "on_book_update_set b'"
proof -
  from assms(1) obtain i pl ix where
    fin: "finish (ExecResult f r)
            ((set_ladder sd pl
               (upd_level sd i (\<lambda>level. enqueue level
                   \<lparr>n_id = order_id cmd, n_user = user_id cmd, n_qty = r, n_ts = recv_ts cmd,
                    n_flags = cmd_flags cmd, n_addr = next_addr b\<rparr>)
                 (b\<lparr>next_addr := next_addr b + 1\<rparr>)))\<lparr>id_index := ix\<rparr>) = Done res b'"
    by (auto simp: rest_order_def Let_def split: option.splits if_splits)
  let ?b2 = "(set_ladder sd pl
               (upd_level sd i (\<lambda>level. enqueue level
                   \<lparr>n_id = order_id cmd, n_user = user_id cmd, n_qty = r, n_ts = recv_ts cmd,
                    n_flags = cmd_flags cmd, n_addr = next_addr b\<rparr>)
                 (b\<lparr>next_addr := next_addr b + 1\<rparr>)))\<lparr>id_index := ix\<rparr>"
  have fl: "on_book_update_set ?b2" "out ?b2 = out b"
    using assms(2) by simp_all
  from finish_Done[OF fin fl(1)] fl show "\<exists>u. out b' = out b @ [Update u]" "on_book_update_set b'"
    by auto
qed

lemma submit_limit_side_out:
  assumes "submit_limit_side sd cmd b = Done res b'" "on_book_update_set b"
  shows "\<exists>tr u. out b' = out b @ map Trade tr @ [Update u]"
proof -
  show "\<exists>tr u. out b' = out b @ map Trade tr @ [Update u]"
  proof (cases "tif cmd = FOK \<and> check_fok_liquidity sd b (cmd_qty cmd) (price_ticks cmd) = Some False")
    case True
    with assms have "finish (ExecResult 0 0) b = Done res b'"
      by (auto simp: submit_limit_side_def)
    from finish_Done[OF this assms(2)] show ?thesis
      by (auto intro: exI[of _ "[]"])
  next
    case False
    with assms(1) obtain fq b1 where mo: "match_opposite sd cmd b = Done fq b1"
      and rest: "(if cmd_qty cmd - fq > 0 then
                 if tif cmd = IOC then finish (ExecResult fq 0) b1
                 else if tif cmd = FOK then finish (ExecResult fq 0) b1
                 else rest_order sd cmd fq (cmd_qty cmd - fq) b1
               else finish (ExecResult fq (cmd_qty cmd - fq)) b1) = Done res b'"
      by (auto simp: submit_limit_side_def Let_def split: option.splits bool.splits outcome.splits if_splits)
    from match_opposite_rel[OF mo] obtain tr where
      tr: "out b1 = out b @ map Trade tr" and fl: "on_book_update_set b1"
      using assms(2) by (auto simp: loop_rel_def static_def)
    from rest fl have "\<exists>u. out b' = out b1 @ [Update u]"
      by (auto split: if_splits dest: finish_Done rest_order_out(1))
    with tr show ?thesis by auto
  qed
qed

lemma submit_limit_out:
  "submit_limit cmd b = Done res b' \<Longrightarrow> on_book_update_set b \<Longrightarrow>
   \<exists>tr u. out b' = out b @ map Trade tr @ [Update u]"
  by (auto simp: submit_limit_def split: if_splits dest: submit_limit_side_out)

lemma submit_market_out:
  assumes "submit_market cmd b = Done res b'" "on_book_update_set b"
  shows "\<exists>tr u. out b' = out b @ map Trade tr @ [Update u]"
proof -
  define sd where "sd = opposite (cmd_side cmd)"
  from assms(1) obtain fq b1 where
    m: "match_against_side sd (cmd_qty cmd) (sentinel sd) (order_id cmd) (user_id cmd)
          (recv_ts cmd) (cmd_flags cmd AND STP \<noteq> 0) b = Done fq b1"
    and fin: "finish (ExecResult fq (cmd_qty cmd - fq)) b1 = Done res b'"
    by (cases "cmd_side cmd")
       (auto simp: submit_market_def Let_def sentinel_def sd_def opposite_def split: outcome.splits)
  from match_against_side_rel[OF m] obtain tr where
    tr: "out b1 = out b @ map Trade tr" and fl: "on_book_update_set b1"
    using assms(2) by (auto simp: loop_rel_def static_def)
  from finish_Done[OF fin fl] tr show ?thesis by auto
qed

lemma cancel_out:
  assumes "cancel ident b = Done ok b'" "on_book_update_set b"
  shows "(fm_find (id_index b) ident = None \<and> \<not> ok \<and> b' = b) \<or>
         (fm_find (id_index b) ident \<noteq> None \<and> ok \<and> on_book_update_set b' \<and>
          (\<exists>u. out b' = out b @ [Update u]))"
proof (cases "fm_find (id_index b) ident")
  case None
  with assms show ?thesis by (simp add: cancel_def)
next
  case (Some entry)
  let ?sd = "e_side entry"
  from assms(1) Some obtain i node b2 ix where
    i: "idx (ladder ?sd b) (e_price entry) = Some i"
    and r: "(if level_empty (levels (ladder ?sd (upd_level ?sd i (\<lambda>level. level_erase level node) b)) i)
           then refresh_best_after_depletion ?sd (upd_level ?sd i (\<lambda>level. level_erase level node) b)
           else Done () (upd_level ?sd i (\<lambda>level. level_erase level node) b)) = Done () b2"
    and fin: "finish True (b2\<lparr>id_index := ix\<rparr>) = Done ok b'"
    by (auto simp: cancel_def Let_def split: option.splits outcome.splits)
  from r have b2: "static b2 = static b" "out b2 = out b"
    by (auto split: if_splits dest: refresh_frame(1,2))
  then have fl: "on_book_update_set (b2\<lparr>id_index := ix\<rparr>)"
    using assms(2) by (simp add: static_def)
  from finish_Done[OF fin fl] b2 Some assms(2) show ?thesis by (auto simp: static_def)
qed

text \<open>A \<^verbatim>\<open>modify\<close> that takes the in-place branch.\<close>

definition shrinks_in_place :: "64 word \<Rightarrow> int \<Rightarrow> int \<Rightarrow> book \<Rightarrow> bool" where
  "shrinks_in_place ident new_price new_qty b =
     (case fm_find (id_index b) ident of
        None \<Rightarrow> False
      | Some entry \<Rightarrow>
          (case idx (ladder (e_side entry) b) (e_price entry) of
             None \<Rightarrow> False
           | Some i \<Rightarrow>
             (case node_at (levels (ladder (e_side entry) b) i) (e_node entry) of
                None \<Rightarrow> False
              | Some node \<Rightarrow> new_price = e_price entry \<and> new_qty < n_qty node)))"

lemma modify_out:
  assumes "modify ident new_price new_qty b = Done res b'" "on_book_update_set b"
  shows "(fm_find (id_index b) ident = None \<and> b' = b) \<or>
         (fm_find (id_index b) ident \<noteq> None \<and> shrinks_in_place ident new_price new_qty b \<and>
          (\<exists>u. out b' = out b @ [Update u])) \<or>
         (fm_find (id_index b) ident \<noteq> None \<and> \<not> shrinks_in_place ident new_price new_qty b \<and>
          (\<exists>u1 tr u2. out b' = out b @ [Update u1] @ map Trade tr @ [Update u2]))"
proof (cases "fm_find (id_index b) ident")
  case None
  with assms show ?thesis by (simp add: modify_def)
next
  case (Some entry)
  from assms(1) Some obtain i node where
    i: "idx (ladder (e_side entry) b) (e_price entry) = Some i"
    and n: "node_at (levels (ladder (e_side entry) b) i) (e_node entry) = Some node"
    by (auto simp: modify_def split: option.splits)
  show ?thesis
  proof (cases "new_price = e_price entry \<and> new_qty < n_qty node")
    case True
    with Some i n have sh: "shrinks_in_place ident new_price new_qty b"
      by (simp add: shrinks_in_place_def)
    from assms(1) Some i n True have
      "finish (ExecResult 0 new_qty)
         (upd_level (e_side entry) i (\<lambda>level. reduce_qty level node (n_qty node - new_qty)) b)
       = Done res b'"
      by (simp add: modify_def Let_def)
    from finish_Done[OF this] assms(2) have "\<exists>u. out b' = out b @ [Update u]"
      by auto
    with sh Some show ?thesis by simp
  next
    case False
    with Some i n have sh: "\<not> shrinks_in_place ident new_price new_qty b"
      by (simp add: shrinks_in_place_def)
    let ?b1 = "b\<lparr>clock_reads := clock_reads b + 1\<rparr>"
    let ?cmd = "\<lparr>cmd_type = NewOrder, recv_ts = clock b (clock_reads b), order_id = ident,
                 user_id = n_user node, price_ticks = new_price, cmd_qty = new_qty,
                 cmd_side = e_side entry, order_type = Limit, tif = GTC,
                 cmd_flags = n_flags node\<rparr>"
    from assms(1) Some i n False obtain ok b2 where
      c: "cancel ident ?b1 = Done ok b2"
      and s: "(if \<not> ok then Done (ExecResult 0 0) b2 else submit_limit ?cmd b2) = Done res b'"
      by (auto simp: modify_def Let_def now_ns_def split: outcome.splits if_splits)
    have "fm_find (id_index ?b1) ident \<noteq> None" "on_book_update_set ?b1"
      using Some assms(2) by simp_all
    with cancel_out[OF c] obtain u1 where
      ok: "ok" "on_book_update_set b2" and u1: "out b2 = out b @ [Update u1]"
      by auto
    from s ok have "submit_limit ?cmd b2 = Done res b'" by simp
    from submit_limit_out[OF this ok(2)] u1 sh Some show ?thesis
      by auto
  qed
qed

text \<open>The number of book updates each command emits.\<close>

definition updates_expected :: "order_command \<Rightarrow> book \<Rightarrow> nat" where
  "updates_expected cmd b =
     (case cmd_type cmd of
        NewOrder \<Rightarrow> 1
      | CancelOrder \<Rightarrow> (if fm_find (id_index b) (order_id cmd) = None then 0 else 1)
      | ModifyOrder \<Rightarrow>
          (if fm_find (id_index b) (order_id cmd) = None then 0
           else if shrinks_in_place (order_id cmd) (price_ticks cmd) (cmd_qty cmd) b then 1
           else 2))"

text \<open>
  C2 (as amended). With the book-update callback registered, a command that returns
  appends to the output: for a NewOrder (limit with any TIF, a rejected FOK included, or
  market) its trades followed by exactly one book update; for a Cancel or Modify of an
  identifier the index does not find, nothing; for a Cancel of a found order, one book
  update; for a Modify that shrinks in place, one book update; for a Modify that cancels
  and resubmits, the book update of the cancel, then the trades of the resubmission, then
  the book update of the resubmission. Whenever a command emits a book update, a book
  update is the last event it emits.
\<close>

theorem C2_book_updates_per_command:
  assumes "process cmd b = Done u b'" "on_book_update_set b"
  shows "\<exists>evs. out b' = out b @ evs \<and>
           length (filter is_update evs) = updates_expected cmd b \<and>
           (updates_expected cmd b = 0 \<or> is_update (last evs)) \<and>
           (case cmd_type cmd of
              NewOrder \<Rightarrow> \<exists>tr upd. evs = map Trade tr @ [Update upd]
            | CancelOrder \<Rightarrow>
                if fm_find (id_index b) (order_id cmd) = None then evs = []
                else \<exists>upd. evs = [Update upd]
            | ModifyOrder \<Rightarrow>
                if fm_find (id_index b) (order_id cmd) = None then evs = []
                else if shrinks_in_place (order_id cmd) (price_ticks cmd) (cmd_qty cmd) b
                then \<exists>upd. evs = [Update upd]
                else \<exists>u1 tr u2. evs = [Update u1] @ map Trade tr @ [Update u2])"
proof (cases "cmd_type cmd")
  case NewOrder
  with assms(1) obtain res where
    "(if order_type cmd = Limit then submit_limit cmd b else submit_market cmd b) = Done res b'"
    by (auto simp: process_def split: outcome.splits)
  with assms(2) obtain tr upd where "out b' = out b @ map Trade tr @ [Update upd]"
    by (auto split: if_splits dest: submit_limit_out submit_market_out)
  with NewOrder show ?thesis
    by (intro exI[of _ "map Trade tr @ [Update upd]"])
       (auto simp: updates_expected_def is_update_def filter_map o_def)
next
  case CancelOrder
  with assms(1) obtain ok where "cancel (order_id cmd) b = Done ok b'"
    by (auto simp: process_def split: outcome.splits)
  from cancel_out[OF this assms(2)] show ?thesis
  proof
    assume "fm_find (id_index b) (order_id cmd) = None \<and> \<not> ok \<and> b' = b"
    with CancelOrder show ?thesis
      by (intro exI[of _ "[]"]) (simp add: updates_expected_def)
  next
    assume "fm_find (id_index b) (order_id cmd) \<noteq> None \<and> ok \<and> on_book_update_set b' \<and>
          (\<exists>upd. out b' = out b @ [Update upd])"
    then obtain upd where f: "fm_find (id_index b) (order_id cmd) \<noteq> None"
      and o: "out b' = out b @ [Update upd]" by blast
    with CancelOrder show ?thesis
      by (intro exI[of _ "[Update upd]"]) (simp add: updates_expected_def is_update_def)
  qed
next
  case ModifyOrder
  with assms(1) obtain res where
    "modify (order_id cmd) (price_ticks cmd) (cmd_qty cmd) b = Done res b'"
    by (auto simp: process_def split: outcome.splits)
  from modify_out[OF this assms(2)] show ?thesis
  proof (elim disjE conjE exE)
    assume "fm_find (id_index b) (order_id cmd) = None" "b' = b"
    with ModifyOrder show ?thesis
      by (intro exI[of _ "[]"]) (simp add: updates_expected_def)
  next
    fix upd
    assume "fm_find (id_index b) (order_id cmd) \<noteq> None"
      "shrinks_in_place (order_id cmd) (price_ticks cmd) (cmd_qty cmd) b"
      "out b' = out b @ [Update upd]"
    with ModifyOrder show ?thesis
      by (intro exI[of _ "[Update upd]"]) (simp add: updates_expected_def is_update_def)
  next
    fix u1 tr u2
    assume "fm_find (id_index b) (order_id cmd) \<noteq> None"
      "\<not> shrinks_in_place (order_id cmd) (price_ticks cmd) (cmd_qty cmd) b"
      "out b' = out b @ [Update u1] @ map Trade tr @ [Update u2]"
    with ModifyOrder show ?thesis
      by (intro exI[of _ "[Update u1] @ map Trade tr @ [Update u2]"])
         (auto simp: updates_expected_def is_update_def filter_map o_def)
  qed
qed


definition cancel_order :: "64 word \<Rightarrow> order_command" where
  "cancel_order ident = (limit_order ident 0 Bid 0 0 GTC 0)\<lparr>cmd_type := CancelOrder\<rparr>"

definition modify_order :: "64 word \<Rightarrow> int \<Rightarrow> int \<Rightarrow> order_command" where
  "modify_order ident px q = (limit_order ident 0 Bid px q GTC 0)\<lparr>cmd_type := ModifyOrder\<rparr>"

text \<open>
  C2, counterexample: a Cancel naming an unknown identifier returns and leaves the book,
  including its output, as it was: no book update is emitted.
\<close>

theorem C2_counterexample:
  "process (cancel_order 42) (new_book 1 band_100_200 (\<lambda>_. 0))
   = Done () (new_book 1 band_100_200 (\<lambda>_. 0))"
  by (simp add: eval_defs cancel_order_def limit_order_def band_100_200_def)

text \<open>A book holding one bid: 10 lots at tick 150, order 1 of user 7.\<close>

definition book_bid10 :: book where
  "book_bid10 = after [limit_order 1 7 Bid 150 10 GTC 0] (new_book 1 band_100_200 (\<lambda>_. 0))"

lemma book_with_bid_10:
  "book_bid10 =
   \<lparr>symbol_id = 1,
    bids = \<lparr>band = band_100_200,
            levels = (\<lambda>_. empty_level)
              (50 := \<lparr>nodes = [\<lparr>n_id = 1, n_user = 7, n_qty = 10, n_ts = 0, n_flags = 0,
                                   n_addr = 1\<rparr>], total_qty = 10\<rparr>),
            pl_best_bid = 150, pl_best_ask = EMPTY_ASK\<rparr>,
    asks = PriceLevelsArray band_100_200,
    next_addr = 2,
    id_index = \<lparr>entries = (\<lambda>_. (0, zero_entry))
                   (slot 8192 (fm_hash 1) := (1, \<lparr>e_side = Bid, e_price = 150, e_node = 1\<rparr>)),
                capacity = 8192, fm_size = 1\<rparr>,
    on_trade_set = True, on_book_update_set = True,
    out = [Update \<lparr>u_ts = 0, u_symbol = 1, u_best_bid = 150, u_best_ask = EMPTY_ASK,
                   bid_qty = 10, ask_qty = 0\<rparr>],
    clock = (\<lambda>_. 0), clock_reads = 1\<rparr>"
  by (simp add: book_bid10_def after_def eval_defs limit_order_def band_100_200_def)

text \<open>
  A book holding a bid of 10 at tick 150 (order 1 of user 7) and an ask of 5 at tick 160
  (order 2 of user 8).
\<close>

definition book_bid_ask :: book where
  "book_bid_ask =
     after [limit_order 1 7 Bid 150 10 GTC 0, limit_order 2 8 Ask 160 5 GTC 0]
       (new_book 1 band_100_200 (\<lambda>_. 0))"

lemma book_with_bid_ask:
  "book_bid_ask =
   \<lparr>symbol_id = 1,
    bids = \<lparr>band = band_100_200,
            levels = (\<lambda>_. empty_level)
              (50 := \<lparr>nodes = [\<lparr>n_id = 1, n_user = 7, n_qty = 10, n_ts = 0, n_flags = 0,
                                   n_addr = 1\<rparr>], total_qty = 10\<rparr>),
            pl_best_bid = 150, pl_best_ask = EMPTY_ASK\<rparr>,
    asks = \<lparr>band = band_100_200,
            levels = (\<lambda>_. empty_level)
              (60 := \<lparr>nodes = [\<lparr>n_id = 2, n_user = 8, n_qty = 5, n_ts = 0, n_flags = 0,
                                   n_addr = 2\<rparr>], total_qty = 5\<rparr>),
            pl_best_bid = EMPTY_BID, pl_best_ask = 160\<rparr>,
    next_addr = 3,
    id_index = \<lparr>entries = (\<lambda>_. (0, zero_entry))
                   (slot 8192 (fm_hash 1) := (1, \<lparr>e_side = Bid, e_price = 150, e_node = 1\<rparr>),
                    slot 8192 (fm_hash 2) := (2, \<lparr>e_side = Ask, e_price = 160, e_node = 2\<rparr>)),
                capacity = 8192, fm_size = 2\<rparr>,
    on_trade_set = True, on_book_update_set = True,
    out = [Update \<lparr>u_ts = 0, u_symbol = 1, u_best_bid = 150, u_best_ask = EMPTY_ASK,
                   bid_qty = 10, ask_qty = 0\<rparr>,
           Update \<lparr>u_ts = 0, u_symbol = 1, u_best_bid = 150, u_best_ask = 160,
                   bid_qty = 10, ask_qty = 5\<rparr>],
    clock = (\<lambda>_. 0), clock_reads = 2\<rparr>"
  by (simp add: book_bid_ask_def after_def eval_defs limit_order_def band_100_200_def)
     (simp add: numeral_2_eq_2)

text \<open>
  Order 1 is modified to tick 160: it is cancelled (first book update), resubmitted,
  trades 5 against order 2 and rests 5 at tick 160 (second book update).
\<close>

theorem C2_witness:
  "\<exists>b' u1 tr u2. process (modify_order 1 160 10) book_bid_ask = Done () b' \<and>
      out b' = out book_bid_ask @ [Update u1] @ map Trade tr @ [Update u2] \<and>
      map t_qty tr = [5] \<and>
      length (filter is_update ([Update u1] @ map Trade tr @ [Update u2])) = 2"
proof -
  let ?b = book_bid_ask
  let ?cmd = "modify_order 1 160 10"
  have "\<exists>b' x1 t x2. process ?cmd ?b = Done () b' \<and>
          out b' = out ?b @ [Update x1, Trade t, Update x2] \<and> t_qty t = 5"
    unfolding book_with_bid_ask
    by (simp add: eval_defs modify_order_def limit_order_def band_100_200_def)
  then obtain b' x1 t x2 where run: "process ?cmd ?b = Done () b'"
    and o: "out b' = out ?b @ [Update x1, Trade t, Update x2]" and q: "t_qty t = 5"
    by blast
  have flag: "on_book_update_set ?b"
    by (simp add: book_with_bid_ask)
  have ty: "cmd_type ?cmd = ModifyOrder" by (simp add: modify_order_def limit_order_def)
  have found: "fm_find (id_index ?b) (order_id ?cmd) \<noteq> None"
    unfolding book_with_bid_ask
    by (simp add: eval_defs modify_order_def limit_order_def)
  have ns: "\<not> shrinks_in_place (order_id ?cmd) (price_ticks ?cmd) (cmd_qty ?cmd) ?b"
    unfolding book_with_bid_ask
    by (simp add: shrinks_in_place_def eval_defs modify_order_def limit_order_def
        band_100_200_def)
  from C2_book_updates_per_command[OF run flag] ty found ns obtain evs u1 tr u2 where
    e: "out b' = out ?b @ evs" "length (filter is_update evs) = updates_expected ?cmd ?b"
    "evs = [Update u1] @ map Trade tr @ [Update u2]"
    by auto
  from e(1,3) o have "[Update u1] @ map Trade tr @ [Update u2] = [Update x1, Trade t, Update x2]"
    by simp
  then have "map Trade tr = [Trade t]" by simp
  then have "tr = [t]" by (cases tr) auto
  with q have "map t_qty tr = [5]" by simp
  moreover have "length (filter is_update ([Update u1] @ map Trade tr @ [Update u2])) = 2"
    by (simp add: is_update_def filter_map o_def)
  ultimately have "process ?cmd ?b = Done () b' \<and>
      out b' = out ?b @ [Update u1] @ map Trade tr @ [Update u2] \<and>
      map t_qty tr = [5] \<and>
      length (filter is_update ([Update u1] @ map Trade tr @ [Update u2])) = 2"
    using run e(1,3) by simp
  then show ?thesis by (intro exI)
qed

lemma limit_order_sel [simp]:
  "cmd_side (limit_order ident user sd px q t fl) = sd"
  "tif (limit_order ident user sd px q t fl) = t"
  "price_ticks (limit_order ident user sd px q t fl) = px"
  "cmd_qty (limit_order ident user sd px q t fl) = q"
  by (simp_all add: limit_order_def)

theorem C7_witness:
  "pl_best_ask (asks book_ask5)
     \<le> EMPTY_ASK \<and>
   submit_limit ((limit_order 2 8 Bid 0 10 GTC 0)\<lparr>price_ticks := EMPTY_ASK, tif := IOC\<rparr>)
     book_ask5
   = map_result (\<lambda>r. r\<lparr>remaining := (if remaining r > 0 then 0 else remaining r)\<rparr>)
       (submit_market (limit_order 2 8 Bid 0 10 GTC 0)
          book_ask5)"
proof -
  let ?b = book_ask5
  have best: "pl_best_ask (asks ?b) \<le> EMPTY_ASK"
    by (simp add: book_with_ask_5 EMPTY_ASK_def)
  with C7_market_as_ioc_limit[where cmd = "limit_order 2 8 Bid 0 10 GTC 0" and b = ?b]
  show ?thesis
    by (simp add: sentinel_def opposite_def)
qed

section \<open>The FOK precheck\<close>

text \<open>The open quantity resting at a level.\<close>

definition level_resting :: "level_fifo \<Rightarrow> int" where
  "level_resting lv = sum_list (map n_qty (nodes lv))"


text \<open>Each cached best tick is the sentinel or a tick of the band.\<close>

definition bests_wf :: "book \<Rightarrow> bool" where
  "bests_wf b =
     ((pl_best_bid (bids b) = EMPTY_BID \<or> is_valid_price (bids b) (pl_best_bid (bids b))) \<and>
      (pl_best_ask (asks b) = EMPTY_ASK \<or> is_valid_price (asks b) (pl_best_ask (asks b))))"

text \<open>
  The walk of the FOK precheck as the specification words it: from the best price of
  the opposite ladder outward, at most 10 000 ticks, stopping at the first tick that
  does not cross the limit (or leaves the band), summing the quantity resting at each
  tick. \<open>sd\<close> is the taker's side.
\<close>

fun outward :: "side \<Rightarrow> int \<Rightarrow> nat \<Rightarrow> int list" where
  "outward sd px 0 = []"
| "outward sd px (Suc n) = px # outward sd (case sd of Bid \<Rightarrow> px + 1 | Ask \<Rightarrow> px - 1) n"

definition crosses :: "side \<Rightarrow> int \<Rightarrow> int \<Rightarrow> bool" where
  "crosses sd px px_limit = (case sd of Bid \<Rightarrow> px \<le> px_limit | Ask \<Rightarrow> px \<ge> px_limit)"

definition walked :: "side \<Rightarrow> price_levels \<Rightarrow> int \<Rightarrow> int \<Rightarrow> nat \<Rightarrow> int list" where
  "walked sd pl px_limit px n =
     takeWhile (\<lambda>p. crosses sd p px_limit \<and> p \<noteq> sentinel (opposite sd) \<and> is_valid_price pl p)
       (outward sd px n)"





lemma walked_stop:
  "\<not> (crosses sd px lim \<and> px \<noteq> sentinel (opposite sd) \<and> is_valid_price pl px) \<Longrightarrow>
   walked sd pl lim px n = []"
  by (cases n) (auto simp: walked_def)






lemma emit_book_update_wf:
  assumes "bests_wf b" "on_book_update_set b"
  shows "\<exists>bq aq. emit_book_update b =
     Some (b\<lparr>clock_reads := clock_reads b + 1,
             out := out b @ [Update \<lparr>u_ts = clock b (clock_reads b), u_symbol = symbol_id b,
                     u_best_bid = pl_best_bid (bids b), u_best_ask = pl_best_ask (asks b),
                     bid_qty = bq, ask_qty = aq\<rparr>]\<rparr>)"
  using assms
  by (auto simp: emit_book_update_def bests_wf_def get_level_def idx_def is_valid_price_def
      now_ns_def Let_def)






section \<open>Modify in place\<close>

lemma node_at_Some:
  "node_at lv a = Some n \<Longrightarrow> n \<in> set (nodes lv) \<and> n_addr n = a"
  by (auto simp: node_at_def find_Some_iff)

lemma same_addr_same_node:
  assumes "distinct (map n_addr xs)" "x \<in> set xs" "y \<in> set xs" "n_addr x = n_addr y"
  shows "x = y"
  using assms by (meson distinct_map inj_onD)

lemma reduce_qty_to:
  assumes "distinct (map n_addr (nodes lv))" "node_at lv a = Some n"
  shows "nodes (reduce_qty lv n (n_qty n - q)) =
         map (\<lambda>x. if n_addr x = a then x\<lparr>n_qty := q\<rparr> else x) (nodes lv)"
proof -
  from node_at_Some[OF assms(2)] have n: "n \<in> set (nodes lv)" "n_addr n = a" by simp_all
  have "\<And>x. x \<in> set (nodes lv) \<Longrightarrow> n_addr x = a \<Longrightarrow> x = n"
    using same_addr_same_node[OF assms(1) _ n(1)] n(2) by simp
  then show ?thesis
    using n(2) by (auto simp: reduce_qty_def)
qed

text \<open>
  Where the index still finds \<open>ident\<close>, with an entry at tick \<open>new_price\<close> pointing to
  the live node \<open>node\<close> of the level at that tick (slot \<open>i\<close>), and \<open>new_qty\<close> is strictly
  less than the node's open quantity, \<^verbatim>\<open>modify\<close> returns
  \<open>{filled = 0, remaining = new_qty}\<close>; in the level, every node keeps its place and the
  order's node has quantity \<open>new_qty\<close>; the level's total shrinks by the difference;
  all other levels, the other side, the cached best prices and the index are unchanged;
  the output gains exactly one book update.
\<close>

lemma modify_shrinks_in_place:
  assumes "fm_find (id_index b) ident = Some entry"
    and "e_price entry = new_price"
    and "idx (ladder (e_side entry) b) new_price = Some i"
    and "node_at (levels (ladder (e_side entry) b) i) (e_node entry) = Some node"
    and "distinct (map n_addr (nodes (levels (ladder (e_side entry) b) i)))"
    and "new_qty < n_qty node"
    and "bests_wf b" and "on_book_update_set b"
  shows "\<exists>b' u. modify ident new_price new_qty b = Done (ExecResult 0 new_qty) b' \<and>
           nodes (levels (ladder (e_side entry) b') i) =
             map (\<lambda>x. if n_addr x = e_node entry then x\<lparr>n_qty := new_qty\<rparr> else x)
               (nodes (levels (ladder (e_side entry) b) i)) \<and>
           total_qty (levels (ladder (e_side entry) b') i) =
             total_qty (levels (ladder (e_side entry) b) i) - (n_qty node - new_qty) \<and>
           (\<forall>j. j \<noteq> i \<longrightarrow> levels (ladder (e_side entry) b') j = levels (ladder (e_side entry) b) j) \<and>
           ladder (opposite (e_side entry)) b' = ladder (opposite (e_side entry)) b \<and>
           pl_best_bid (bids b') = pl_best_bid (bids b) \<and>
           pl_best_ask (asks b') = pl_best_ask (asks b) \<and>
           id_index b' = id_index b \<and>
           out b' = out b @ [Update u]"
proof -
  let ?sd = "e_side entry"
  let ?b1 = "upd_level ?sd i (\<lambda>level. reduce_qty level node (n_qty node - new_qty)) b"
  from assms(1-4,6) have m: "modify ident new_price new_qty b = finish (ExecResult 0 new_qty) ?b1"
    by (simp add: modify_def Let_def)
  have bests: "pl_best_bid (bids ?b1) = pl_best_bid (bids b)"
    "pl_best_ask (asks ?b1) = pl_best_ask (asks b)"
    "band (bids ?b1) = band (bids b)" "band (asks ?b1) = band (asks b)"
    by (cases ?sd; simp add: upd_level_def set_ladder_def ladder_def)+
  with assms(7) have "bests_wf ?b1"
    by (simp add: bests_wf_def is_valid_price_def)
  from emit_book_update_wf[OF this] assms(8) obtain bq aq where
    e: "emit_book_update ?b1 =
          Some (?b1\<lparr>clock_reads := clock_reads ?b1 + 1,
             out := out ?b1 @ [Update \<lparr>u_ts = clock ?b1 (clock_reads ?b1),
                     u_symbol = symbol_id ?b1,
                     u_best_bid = pl_best_bid (bids ?b1), u_best_ask = pl_best_ask (asks ?b1),
                     bid_qty = bq, ask_qty = aq\<rparr>]\<rparr>)"
    by auto
  let ?u = "\<lparr>u_ts = clock ?b1 (clock_reads ?b1), u_symbol = symbol_id ?b1,
             u_best_bid = pl_best_bid (bids ?b1), u_best_ask = pl_best_ask (asks ?b1),
             bid_qty = bq, ask_qty = aq\<rparr>"
  let ?b' = "?b1\<lparr>clock_reads := clock_reads ?b1 + 1, out := out ?b1 @ [Update ?u]\<rparr>"
  from m e have d: "modify ident new_price new_qty b = Done (ExecResult 0 new_qty) ?b'"
    by (simp add: finish_def)
  have lv: "levels (ladder ?sd ?b') =
            (levels (ladder ?sd b))(i := reduce_qty (levels (ladder ?sd b) i) node (n_qty node - new_qty))"
    by simp
  have "nodes (levels (ladder ?sd ?b') i) =
        map (\<lambda>x. if n_addr x = e_node entry then x\<lparr>n_qty := new_qty\<rparr> else x)
          (nodes (levels (ladder ?sd b) i))"
    unfolding lv using reduce_qty_to[OF assms(5,4)] by simp
  moreover have "total_qty (levels (ladder ?sd ?b') i) =
        total_qty (levels (ladder ?sd b) i) - (n_qty node - new_qty)"
    unfolding lv by (simp add: reduce_qty_def)
  moreover have "\<forall>j. j \<noteq> i \<longrightarrow> levels (ladder ?sd ?b') j = levels (ladder ?sd b) j"
    unfolding lv by simp
  moreover have "ladder (opposite ?sd) ?b' = ladder (opposite ?sd) b"
    by simp
  moreover have "pl_best_bid (bids ?b') = pl_best_bid (bids b)"
    "pl_best_ask (asks ?b') = pl_best_ask (asks b)"
    using bests by simp_all
  moreover have "id_index ?b' = id_index b" "out ?b' = out b @ [Update ?u]"
    by simp_all
  ultimately show ?thesis
    using d by blast
qed

text \<open>
  A book holding two bids at tick 150: order 1 of user 7 (10 lots) ahead of order 2 of
  user 8 (10 lots).
\<close>

definition book_two_bids :: book where
  "book_two_bids =
     after [limit_order 1 7 Bid 150 10 GTC 0, limit_order 2 8 Bid 150 10 GTC 0]
       (new_book 1 band_100_200 (\<lambda>_. 0))"

lemma book_with_two_bids:
  "book_two_bids =
   \<lparr>symbol_id = 1,
    bids = \<lparr>band = band_100_200,
            levels = (\<lambda>_. empty_level)
              (50 := \<lparr>nodes = [\<lparr>n_id = 1, n_user = 7, n_qty = 10, n_ts = 0, n_flags = 0,
                                   n_addr = 1\<rparr>,
                                 \<lparr>n_id = 2, n_user = 8, n_qty = 10, n_ts = 0, n_flags = 0,
                                   n_addr = 2\<rparr>], total_qty = 20\<rparr>),
            pl_best_bid = 150, pl_best_ask = EMPTY_ASK\<rparr>,
    asks = PriceLevelsArray band_100_200,
    next_addr = 3,
    id_index = \<lparr>entries = (\<lambda>_. (0, zero_entry))
                   (slot 8192 (fm_hash 1) := (1, \<lparr>e_side = Bid, e_price = 150, e_node = 1\<rparr>),
                    slot 8192 (fm_hash 2) := (2, \<lparr>e_side = Bid, e_price = 150, e_node = 2\<rparr>)),
                capacity = 8192, fm_size = 2\<rparr>,
    on_trade_set = True, on_book_update_set = True,
    out = [Update \<lparr>u_ts = 0, u_symbol = 1, u_best_bid = 150, u_best_ask = EMPTY_ASK,
                   bid_qty = 10, ask_qty = 0\<rparr>,
           Update \<lparr>u_ts = 0, u_symbol = 1, u_best_bid = 150, u_best_ask = EMPTY_ASK,
                   bid_qty = 20, ask_qty = 0\<rparr>],
    clock = (\<lambda>_. 0), clock_reads = 2\<rparr>"
  by (simp add: book_two_bids_def after_def eval_defs limit_order_def band_100_200_def)
     (simp add: numeral_2_eq_2)

text \<open>Shrinking order 1 to 4 lots leaves it at the head of the queue, ahead of order 2.\<close>

lemma modify_shrinks_in_place_example:
  "\<exists>b' u. modify 1 150 4 book_two_bids = Done (ExecResult 0 4) b' \<and>
     nodes (levels (bids b') 50) =
       [\<lparr>n_id = 1, n_user = 7, n_qty = 4, n_ts = 0, n_flags = 0, n_addr = 1\<rparr>,
        \<lparr>n_id = 2, n_user = 8, n_qty = 10, n_ts = 0, n_flags = 0, n_addr = 2\<rparr>] \<and>
     total_qty (levels (bids b') 50) = 14 \<and>
     out b' = out book_two_bids @ [Update u]"
proof -
  let ?entry = "\<lparr>e_side = Bid, e_price = 150, e_node = 1\<rparr>"
  let ?node = "\<lparr>n_id = 1, n_user = 7, n_qty = 10, n_ts = 0, n_flags = 0, n_addr = 1\<rparr>"
  have 1: "fm_find (id_index book_two_bids) 1 = Some ?entry"
    by (simp add: book_with_two_bids fm_find_def find_probe.simps slot_def fm_hash_def)
  have 2: "e_price ?entry = 150" by simp
  have 3: "idx (ladder (e_side ?entry) book_two_bids) 150 = Some 50"
    by (simp add: book_with_two_bids idx_def ladder_def band_100_200_def)
  have 4: "node_at (levels (ladder (e_side ?entry) book_two_bids) 50) (e_node ?entry) = Some ?node"
    by (simp add: book_with_two_bids node_at_def ladder_def)
  have 5: "distinct (map n_addr (nodes (levels (ladder (e_side ?entry) book_two_bids) 50)))"
    by (simp add: book_with_two_bids ladder_def)
  have 6: "4 < n_qty ?node" by simp
  have 7: "bests_wf book_two_bids"
    by (simp add: book_with_two_bids bests_wf_def PriceLevelsArray_def is_valid_price_def
        band_100_200_def)
  have 8: "on_book_update_set book_two_bids" by (simp add: book_with_two_bids)
  from modify_shrinks_in_place[OF 1 2 3 4 5 6 7 8] show ?thesis
    by (simp add: book_with_two_bids ladder_def) blast
qed

section \<open>Invariants of the ladders\<close>

text \<open>The level at a tick of the band.\<close>

definition level_of :: "price_levels \<Rightarrow> int \<Rightarrow> level_fifo" where
  "level_of pl px = levels pl (nat (px - min_tick (band pl)))"

text \<open>The cached best tick of a side is the sentinel, or a tick of the band whose level is not empty.\<close>

definition best_live :: "side \<Rightarrow> book \<Rightarrow> bool" where
  "best_live sd b =
     (best sd (ladder sd b) = sentinel sd \<or>
      (is_valid_price (ladder sd b) (best sd (ladder sd b)) \<and>
       \<not> level_empty (level_of (ladder sd b) (best sd (ladder sd b)))))"

text \<open>A best tick that moved, moved away from the other side (or to the sentinel).\<close>

definition away :: "side \<Rightarrow> int \<Rightarrow> int \<Rightarrow> bool" where
  "away sd old new =
     (new = sentinel sd \<or>
      (old \<noteq> sentinel sd \<and> (case sd of Bid \<Rightarrow> new \<le> old | Ask \<Rightarrow> new \<ge> old)))"

lemma away_refl [simp]: "away sd x x"
  by (simp add: away_def split: side.splits)

text \<open>\<^verbatim>\<open>OrderBook::empty\<close> of either side, or \<open>best_bid < best_ask\<close>.\<close>

definition not_crossed :: "book \<Rightarrow> bool" where
  "not_crossed b =
     (pl_best_bid (bids b) = EMPTY_BID \<or> pl_best_ask (asks b) = EMPTY_ASK \<or>
      pl_best_bid (bids b) < pl_best_ask (asks b))"

subsection \<open>The inner loop\<close>

lemma match_level_no_qty:
  "\<not> qty > 0 \<Longrightarrow> match_level sd i bp taker tu ts stp makers qty tf b = Done (qty, tf) b"
  by (cases makers) simp_all

lemma match_level_skip:
  "qty > 0 \<Longrightarrow> stp \<and> n_user maker = tu \<Longrightarrow>
   match_level sd i bp taker tu ts stp (maker # rest) qty tf b =
   match_level sd i bp taker tu ts stp rest qty tf b"
  by (simp add: match_level.simps)

text \<open>The state after the trade with a maker was emitted.\<close>

definition traded :: "64 word \<Rightarrow> 64 word \<Rightarrow> int \<Rightarrow> order_node \<Rightarrow> int \<Rightarrow> book \<Rightarrow> book" where
  "traded ts taker bp maker qty b =
     (if on_trade_set b
      then emit_trade b \<lparr>t_ts = ts, taker_id = taker, maker_id = n_id maker,
                          t_symbol = symbol_id b, t_price = bp, t_qty = min qty (n_qty maker)\<rparr>
      else b)"

lemma match_level_full:
  "qty > 0 \<Longrightarrow> \<not> (stp \<and> n_user maker = tu) \<Longrightarrow> qty \<ge> n_qty maker \<Longrightarrow>
   match_level sd i bp taker tu ts stp (maker # rest) qty tf b =
   (case fm_erase (id_index (traded ts taker bp maker qty b)) (n_id maker) of
      None \<Rightarrow> Fault Diverges (upd_level sd i (\<lambda>lv. level_erase lv maker) (traded ts taker bp maker qty b))
    | Some ix \<Rightarrow>
        match_level sd i bp taker tu ts stp rest (qty - n_qty maker) (tf + n_qty maker)
          ((upd_level sd i (\<lambda>lv. level_erase lv maker) (traded ts taker bp maker qty b))
             \<lparr>id_index := ix\<rparr>))"
  by (cases stp) (auto simp: match_level.simps Let_def traded_def min_def split: option.splits)

lemma match_level_partial:
  "qty > 0 \<Longrightarrow> \<not> (stp \<and> n_user maker = tu) \<Longrightarrow> qty < n_qty maker \<Longrightarrow>
   match_level sd i bp taker tu ts stp (maker # rest) qty tf b =
   Done (0, tf + qty)
     (upd_level sd i (\<lambda>lv. reduce_qty lv maker qty) (traded ts taker bp maker qty b))"
  by (cases stp) (auto simp: match_level.simps Let_def traded_def min_def match_level_no_qty)

lemma match_level_Nil:
  "match_level sd i bp taker tu ts stp [] qty tf b = Done (qty, tf) b"
  by simp

declare match_level.simps [simp del]

lemma traded_simps [simp]:
  "ladder sd (traded ts taker bp maker qty b) = ladder sd b"
  "static (traded ts taker bp maker qty b) = static b"
  "id_index (traded ts taker bp maker qty b) = id_index b"
  by (simp_all add: traded_def)

text \<open>The walk never creates quantity: what the taker loses is what was filled.\<close>

lemma match_level_sum:
  "match_level sd i bp taker tu ts stp makers qty tf b = Done r b' \<Longrightarrow>
   fst r + snd r = qty + tf"
proof (induction makers arbitrary: qty tf b)
  case Nil
  then show ?case by (auto simp: match_level_Nil)
next
  case (Cons maker rest)
  consider "\<not> qty > 0" | "qty > 0" "stp \<and> n_user maker = tu"
    | "qty > 0" "\<not> (stp \<and> n_user maker = tu)" "qty \<ge> n_qty maker"
    | "qty > 0" "\<not> (stp \<and> n_user maker = tu)" "qty < n_qty maker"
    by linarith
  then show ?case
  proof cases
    case 1
    with Cons.prems show ?thesis by (auto simp: match_level_no_qty)
  next
    case 2
    with Cons.prems Cons.IH show ?thesis by (simp only: match_level_skip)
  next
    case 3
    with Cons.prems show ?thesis
      by (auto simp: match_level_full split: option.splits dest!: Cons.IH)
  next
    case 4
    with Cons.prems show ?thesis by (auto simp: match_level_partial)
  qed
qed

text \<open>
  Without self-trade prevention, a walk that leaves the taker with quantity has removed
  every maker it was given.
\<close>

lemma match_level_drain:
  "match_level sd i bp taker tu ts False makers qty tf b = Done r b' \<Longrightarrow> fst r > 0 \<Longrightarrow>
   nodes (levels (ladder sd b') i) =
     filter (\<lambda>x. n_addr x \<notin> n_addr ` set makers) (nodes (levels (ladder sd b) i))"
proof (induction makers arbitrary: qty tf b)
  case Nil
  then show ?case by (auto simp: match_level_Nil)
next
  case (Cons maker rest)
  consider "\<not> qty > 0" | "qty > 0" "qty \<ge> n_qty maker" | "qty > 0" "qty < n_qty maker"
    by linarith
  then show ?case
  proof cases
    case 1
    with Cons.prems show ?thesis by (auto simp: match_level_no_qty)
  next
    case 2
    with Cons.prems obtain ix where
      rec: "match_level sd i bp taker tu ts False rest (qty - n_qty maker) (tf + n_qty maker)
          ((upd_level sd i (\<lambda>lv. level_erase lv maker) (traded ts taker bp maker qty b))
             \<lparr>id_index := ix\<rparr>) = Done r b'"
      by (auto simp: match_level_full split: option.splits)
    from Cons.IH[OF rec Cons.prems(2)] show ?thesis
      by (simp add: level_erase_def)
  next
    case 3
    with Cons.prems show ?thesis by (auto simp: match_level_partial)
  qed
qed

text \<open>The nodes a walk leaves in the level are nodes that were there, up to their quantity.\<close>

definition shrunk :: "order_node list \<Rightarrow> order_node list \<Rightarrow> bool" where
  "shrunk old new = (\<forall>n \<in> set new. \<exists>m \<in> set old. n = m\<lparr>n_qty := n_qty n\<rparr>)"

lemma shrunk_refl [simp]: "shrunk xs xs"
  unfolding shrunk_def
proof
  fix n assume "n \<in> set xs"
  moreover have "n = n\<lparr>n_qty := n_qty n\<rparr>" by simp
  ultimately show "\<exists>m\<in>set xs. n = m\<lparr>n_qty := n_qty n\<rparr>" by blast
qed

lemma shrunk_trans: "shrunk xs ys \<Longrightarrow> shrunk ys zs \<Longrightarrow> shrunk xs zs"
  unfolding shrunk_def
proof (intro ballI)
  fix n assume a: "\<forall>n\<in>set ys. \<exists>m\<in>set xs. n = m\<lparr>n_qty := n_qty n\<rparr>"
    "\<forall>n\<in>set zs. \<exists>m\<in>set ys. n = m\<lparr>n_qty := n_qty n\<rparr>" "n \<in> set zs"
  then obtain m where m: "m \<in> set ys" "n = m\<lparr>n_qty := n_qty n\<rparr>" by blast
  with a(1) obtain k where k: "k \<in> set xs" "m = k\<lparr>n_qty := n_qty m\<rparr>" by blast
  from m(2) k(2) have "n = k\<lparr>n_qty := n_qty n\<rparr>"
    by (metis order_node.update_convs(3) order_node.surjective order_node.select_convs(3))
  with k(1) show "\<exists>m\<in>set xs. n = m\<lparr>n_qty := n_qty n\<rparr>" by blast
qed

lemma shrunk_self:
  "n \<in> set (old :: order_node list) \<Longrightarrow> \<exists>m\<in>set old. n = m\<lparr>n_qty := n_qty n\<rparr>"
proof -
  assume "n \<in> set old"
  moreover have "n = n\<lparr>n_qty := n_qty n\<rparr>" by simp
  ultimately show ?thesis by blast
qed

lemma shrunk_level_erase: "shrunk (nodes lv) (nodes (level_erase lv n))"
  by (auto simp: shrunk_def level_erase_def intro: shrunk_self)

lemma shrunk_reduce_qty: "shrunk (nodes lv) (nodes (reduce_qty lv n r))"
  unfolding shrunk_def reduce_qty_def
proof
  fix x
  assume "x \<in> set (nodes (lv\<lparr>nodes := map (\<lambda>x. if n_addr x = n_addr n
             then x\<lparr>n_qty := n_qty x - r\<rparr> else x) (nodes lv),
           total_qty := total_qty lv - r\<rparr>))"
  then obtain m where m: "m \<in> set (nodes lv)"
    "x = (if n_addr m = n_addr n then m\<lparr>n_qty := n_qty m - r\<rparr> else m)"
    by auto
  show "\<exists>m\<in>set (nodes lv). x = m\<lparr>n_qty := n_qty x\<rparr>"
  proof (cases "n_addr m = n_addr n")
    case True
    with m have "x = m\<lparr>n_qty := n_qty x\<rparr>" by simp
    with m(1) show ?thesis by blast
  next
    case False
    with m have "x = m" by simp
    with m(1) shrunk_self show ?thesis by blast
  qed
qed

lemma match_level_shrunk:
  "match_level sd i bp taker tu ts stp makers qty tf b = Done r b' \<Longrightarrow>
   shrunk (nodes (levels (ladder sd b) i)) (nodes (levels (ladder sd b') i))"
proof (induction makers arbitrary: qty tf b)
  case Nil
  then show ?case by (auto simp: match_level_Nil)
next
  case (Cons maker rest)
  consider "\<not> qty > 0" | "qty > 0" "stp \<and> n_user maker = tu"
    | "qty > 0" "\<not> (stp \<and> n_user maker = tu)" "qty \<ge> n_qty maker"
    | "qty > 0" "\<not> (stp \<and> n_user maker = tu)" "qty < n_qty maker"
    by linarith
  then show ?case
  proof cases
    case 1
    with Cons.prems show ?thesis by (auto simp: match_level_no_qty)
  next
    case 2
    with Cons.prems Cons.IH show ?thesis by (simp only: match_level_skip)
  next
    case 3
    with Cons.prems obtain ix where
      rec: "match_level sd i bp taker tu ts stp rest (qty - n_qty maker) (tf + n_qty maker)
          ((upd_level sd i (\<lambda>lv. level_erase lv maker) (traded ts taker bp maker qty b))
             \<lparr>id_index := ix\<rparr>) = Done r b'"
      by (auto simp: match_level_full split: option.splits)
    from Cons.IH[OF rec] shrunk_level_erase[of "levels (ladder sd b) i" maker] show ?thesis
      by (auto intro: shrunk_trans)
  next
    case 4
    with Cons.prems shrunk_reduce_qty[of "levels (ladder sd b) i" maker qty] show ?thesis
      by (auto simp: match_level_partial)
  qed
qed


subsection \<open>Refreshing the best tick\<close>

lemma cur_slot_level: "levels (ladder sd b) (cur_slot sd b) = level_of (ladder sd b) (best sd (ladder sd b))"
  by (simp add: cur_slot_def level_of_def)

lemma set_best_eq:
  "set_best sd pl px = Some pl' \<Longrightarrow>
   best sd pl' = px \<and> levels pl' = levels pl \<and> band pl' = band pl"
  by (simp add: set_best_best set_best_levels set_best_band)

text \<open>
  After \<^verbatim>\<open>refresh_best_after_depletion\<close> the cached best tick is unchanged (it was the
  sentinel), or the sentinel, or a tick strictly further from the other side whose level
  is not empty.
\<close>

lemma refresh_best:
  assumes "refresh_best_after_depletion sd b = Done u b'"
  shows "(best sd (ladder sd b) = sentinel sd \<and> b' = b) \<or>
         best sd (ladder sd b') = sentinel sd \<or>
         (best sd (ladder sd b) \<noteq> sentinel sd \<and>
          is_valid_price (ladder sd b') (best sd (ladder sd b')) \<and>
          \<not> level_empty (level_of (ladder sd b') (best sd (ladder sd b'))) \<and>
          (case sd of Bid \<Rightarrow> best sd (ladder sd b') < best sd (ladder sd b)
                    | Ask \<Rightarrow> best sd (ladder sd b') > best sd (ladder sd b)))"
proof (cases "best sd (ladder sd b) = sentinel sd")
  case True
  with assms show ?thesis by (simp add: refresh_best_after_depletion_def)
next
  case False
  let ?pl = "ladder sd b" and ?cur = "best sd (ladder sd b)"
  from assms False obtain pl' where
    sc: "refresh_scan sd ?pl ?cur 1 = Some pl'" and b': "b' = set_ladder sd pl' b"
    by (auto simp: refresh_best_after_depletion_def Let_def split: option.splits)
  from refresh_scan_result[of 1 ?pl sd ?cur] obtain j where j: "j \<ge> 1"
    "(is_valid_price ?pl (scan_px sd ?cur j) \<and>
       \<not> level_empty (levels ?pl (nat (scan_px sd ?cur j - min_tick (band ?pl)))) \<and>
       refresh_scan sd ?pl ?cur 1 = set_best sd ?pl (scan_px sd ?cur j)) \<or>
      refresh_scan sd ?pl ?cur 1 = set_best sd ?pl (sentinel sd)"
    by blast
  from j(2) show ?thesis
  proof
    assume h: "is_valid_price ?pl (scan_px sd ?cur j) \<and>
       \<not> level_empty (levels ?pl (nat (scan_px sd ?cur j - min_tick (band ?pl)))) \<and>
       refresh_scan sd ?pl ?cur 1 = set_best sd ?pl (scan_px sd ?cur j)"
    with sc have "set_best sd ?pl (scan_px sd ?cur j) = Some pl'" by simp
    from set_best_eq[OF this] h j(1) b' False show ?thesis
      by (auto simp: is_valid_price_def level_of_def scan_px_def split: side.splits)
  next
    assume "refresh_scan sd ?pl ?cur 1 = set_best sd ?pl (sentinel sd)"
    with sc have "set_best sd ?pl (sentinel sd) = Some pl'" by simp
    from set_best_eq[OF this] b' show ?thesis by simp
  qed
qed

lemma refresh_best_live: "refresh_best_after_depletion sd b = Done u b' \<Longrightarrow> best_live sd b'"
  by (drule refresh_best) (auto simp: best_live_def)

lemma refresh_away:
  "refresh_best_after_depletion sd b = Done u b' \<Longrightarrow> away sd old (best sd (ladder sd b)) \<Longrightarrow>
   away sd old (best sd (ladder sd b'))"
  by (drule refresh_best) (auto simp: away_def split: side.splits)

subsection \<open>Matching against a side\<close>

definition beyond :: "side \<Rightarrow> int \<Rightarrow> int \<Rightarrow> bool" where
  "beyond sd px px_limit = (case sd of Bid \<Rightarrow> px < px_limit | Ask \<Rightarrow> px > px_limit)"

lemma filter_all_addrs: "filter (\<lambda>x. n_addr x \<notin> n_addr ` set xs) xs = []"
  by (simp add: filter_empty_conv)

text \<open>
  Matching keeps the cached best of the matched side live and lets it move away only;
  it leaves in every level nodes that were there. Without self-trade prevention, a
  taker left with quantity has exhausted the side or met a best tick beyond its limit.
\<close>

lemma match_against_side_live:
  assumes m: "match_against_side sd qty lim taker tu ts stp b = Done f b'"
    and live: "best_live sd b"
  shows "best_live sd b' \<and> away sd (best sd (ladder sd b)) (best sd (ladder sd b')) \<and>
         (\<forall>j. shrunk (nodes (levels (ladder sd b) j)) (nodes (levels (ladder sd b') j))) \<and>
         (\<not> stp \<longrightarrow> qty - f > 0 \<longrightarrow>
            best sd (ladder sd b') = sentinel sd \<or> beyond sd (best sd (ladder sd b')) lim)"
  using m[unfolded match_against_side_def]
proof (rule match_loop_rule[where
      I = "\<lambda>q t x. best_live sd x \<and> away sd (best sd (ladder sd b)) (best sd (ladder sd x)) \<and>
             (\<forall>j. shrunk (nodes (levels (ladder sd b) j)) (nodes (levels (ladder sd x) j))) \<and>
             q + t = qty"
      and Q = "\<lambda>t x. best_live sd x \<and> away sd (best sd (ladder sd b)) (best sd (ladder sd x)) \<and>
             (\<forall>j. shrunk (nodes (levels (ladder sd b) j)) (nodes (levels (ladder sd x) j))) \<and>
             (\<not> stp \<longrightarrow> qty - t > 0 \<longrightarrow>
                best sd (ladder sd x) = sentinel sd \<or> beyond sd (best sd (ladder sd x)) lim)"],
    goal_cases)
  case 1
  from live show ?case by simp
next
  case (2 q t x)
  then show ?case
    by (auto simp: stops_def best_live_def cur_slot_level beyond_def)
next
  case (3 q t x r b1)
  let ?i = "cur_slot sd x"
  from match_level_rel[OF 3(3)] have rel: "match_rel sd ?i x b1" .
  then have same: "best sd (ladder sd b1) = best sd (ladder sd x)"
    "band (ladder sd b1) = band (ladder sd x)"
    "\<And>j. j \<noteq> ?i \<Longrightarrow> levels (ladder sd b1) j = levels (ladder sd x) j"
    by (simp_all add: match_rel_def)
  from 3(2) have ne: "best sd (ladder sd x) \<noteq> sentinel sd" by (simp add: stops_def)
  have live1: "best_live sd b1"
    using 3(1,4) ne same(1,2)
    by (simp add: best_live_def is_valid_price_def level_of_def cur_slot_def)
  have sh: "shrunk (nodes (levels (ladder sd x) j)) (nodes (levels (ladder sd b1) j))" for j
    using match_level_shrunk[OF 3(3)] same(3)[of j] by (cases "j = ?i") auto
  have sh': "\<forall>j. shrunk (nodes (levels (ladder sd b) j)) (nodes (levels (ladder sd b1) j))"
    using 3(1) sh by (blast intro: shrunk_trans)
  have "fst r \<le> 0" if "\<not> stp"
  proof (rule ccontr)
    assume "\<not> fst r \<le> 0"
    then have "fst r > 0" by simp
    from that 3(3) have
      "match_level sd ?i (best sd (ladder sd x)) taker tu ts False
         (nodes (levels (ladder sd x) ?i)) q t x = Done r b1" by simp
    from match_level_drain[OF this \<open>fst r > 0\<close>]
    have "nodes (levels (ladder sd b1) ?i) = []"
      by (simp add: filter_all_addrs)
    with 3(4) show False by (simp add: level_empty_def)
  qed
  moreover from match_level_sum[OF 3(3)] 3(1) have "fst r + snd r = qty" by simp
  ultimately have "\<not> stp \<longrightarrow> \<not> qty - snd r > 0" by auto
  with live1 sh' 3(1) same(1) show ?case by simp
next
  case (4 q t x r b1 b2)
  let ?i = "cur_slot sd x"
  from match_level_rel[OF 4(3)] have rel: "match_rel sd ?i x b1" .
  then have same: "best sd (ladder sd b1) = best sd (ladder sd x)"
    "\<And>j. j \<noteq> ?i \<Longrightarrow> levels (ladder sd b1) j = levels (ladder sd x) j"
    by (simp_all add: match_rel_def)
  have sh: "shrunk (nodes (levels (ladder sd x) j)) (nodes (levels (ladder sd b1) j))" for j
    using match_level_shrunk[OF 4(3)] same(2)[of j] by (cases "j = ?i") auto
  have sh': "\<forall>j. shrunk (nodes (levels (ladder sd b) j)) (nodes (levels (ladder sd b2) j))"
    using 4(1) sh refresh_frame(5)[OF 4(5)] by (auto intro: shrunk_trans)
  from 4(1) same(1) have "away sd (best sd (ladder sd b)) (best sd (ladder sd b1))" by simp
  from refresh_away[OF 4(5) this] refresh_best_live[OF 4(5)] sh' match_level_sum[OF 4(3)] 4(1)
  show ?case by simp
qed

section \<open>The book at rest is not crossed\<close>

definition no_stp_resting :: "book \<Rightarrow> bool" where
  "no_stp_resting b =
     (\<forall>sd i. \<forall>n \<in> set (nodes (levels (ladder sd b) i)). n_flags n AND STP = 0)"

definition inv3 :: "book \<Rightarrow> bool" where
  "inv3 b = (best_live Bid b \<and> best_live Ask b \<and> not_crossed b \<and> no_stp_resting b)"

lemma inv3_cong:
  assumes "bids b' = bids b" "asks b' = asks b"
  shows "inv3 b' = inv3 b"
proof -
  have "ladder sd b' = ladder sd b" for sd
    using assms by (cases sd) (simp_all add: ladder_def)
  then show ?thesis
    using assms by (simp add: inv3_def best_live_def not_crossed_def no_stp_resting_def)
qed

lemma emit_book_update_ladders:
  "emit_book_update b = Some b' \<Longrightarrow>
   bids b' = bids b \<and> asks b' = asks b \<and> id_index b' = id_index b \<and> next_addr b' = next_addr b"
proof (cases "on_book_update_set b")
  case True
  assume "emit_book_update b = Some b'"
  from emit_book_update_Some[OF this True] show ?thesis by auto
next
  case False
  assume "emit_book_update b = Some b'"
  with False show ?thesis by (simp add: emit_book_update_def)
qed

lemma finish_ladders:
  "finish r b = Done r' b' \<Longrightarrow>
   bids b' = bids b \<and> asks b' = asks b \<and> id_index b' = id_index b \<and> next_addr b' = next_addr b"
  using emit_book_update_ladders[of b b']
  by (cases "emit_book_update b") (simp_all add: finish_def)

lemma finish_inv3: "finish r b = Done r' b' \<Longrightarrow> inv3 b \<Longrightarrow> inv3 b'"
  using finish_ladders[of r b r' b'] inv3_cong[of b' b] by simp

text \<open>One side's best tick moves away while the other side stays: still not crossed.\<close>

lemma not_crossed_away:
  assumes "not_crossed b" "ladder (opposite sd) b' = ladder (opposite sd) b"
    "away sd (best sd (ladder sd b)) (best sd (ladder sd b'))"
  shows "not_crossed b'"
  using assms
  by (cases sd)
     (auto simp: not_crossed_def away_def ladder_def opposite_def best_def sentinel_def)

lemma best_live_other:
  "ladder sd b' = ladder sd b \<Longrightarrow> best_live sd b' = best_live sd b"
  by (simp add: best_live_def)

lemma shrunk_flags:
  "shrunk old new \<Longrightarrow> \<forall>m \<in> set old. n_flags m AND STP = 0 \<Longrightarrow> n \<in> set new \<Longrightarrow>
   n_flags n AND STP = 0"
proof -
  assume a: "shrunk old new" "\<forall>m \<in> set old. n_flags m AND STP = 0" "n \<in> set new"
  then obtain m where m: "m \<in> set old" "n = m\<lparr>n_qty := n_qty n\<rparr>"
    unfolding shrunk_def by blast
  from m(2) have "n_flags n = n_flags (m\<lparr>n_qty := n_qty n\<rparr>)" by simp
  then have "n_flags n = n_flags m" by simp
  with a(2) m(1) show ?thesis by simp
qed

lemma no_stp_resting_shrunk:
  assumes "no_stp_resting b" "ladder (opposite sd) b' = ladder (opposite sd) b"
    "\<forall>j. shrunk (nodes (levels (ladder sd b) j)) (nodes (levels (ladder sd b') j))"
  shows "no_stp_resting b'"
  unfolding no_stp_resting_def
proof (intro allI ballI)
  fix s i n assume n: "n \<in> set (nodes (levels (ladder s b') i))"
  show "n_flags n AND STP = 0"
  proof (cases "s = sd")
    case True
    with assms(1,3) n shrunk_flags[of "nodes (levels (ladder sd b) i)" "nodes (levels (ladder sd b') i)" n]
    show ?thesis by (auto simp: no_stp_resting_def)
  next
    case False
    then have "s = opposite sd" by (cases s; cases sd) (simp_all add: opposite_def)
    with assms(1,2) n show ?thesis by (auto simp: no_stp_resting_def)
  qed
qed

text \<open>
  A step that works on one side only, keeps its cached best live, moves it away from the
  other side, and adds no node, keeps the invariant.
\<close>

lemma inv3_side_step:
  assumes i: "inv3 b"
    and opp: "ladder (opposite sd) b' = ladder (opposite sd) b"
    and l: "best_live sd b'"
    and a: "away sd (best sd (ladder sd b)) (best sd (ladder sd b'))"
    and s: "\<forall>j. shrunk (nodes (levels (ladder sd b) j)) (nodes (levels (ladder sd b') j))"
  shows "inv3 b'"
proof -
  from i have "best_live (opposite sd) b" by (cases sd) (simp_all add: inv3_def opposite_def)
  with best_live_other[OF opp] have "best_live (opposite sd) b'" by simp
  with l have "best_live Bid b'" "best_live Ask b'" by (cases sd; simp add: opposite_def)+
  moreover from i have "not_crossed b" "no_stp_resting b" by (simp_all add: inv3_def)
  then have "not_crossed b'" "no_stp_resting b'"
    using not_crossed_away[OF _ opp a] no_stp_resting_shrunk[OF _ opp s] by simp_all
  ultimately show "inv3 b'" by (simp add: inv3_def)
qed

text \<open>Matching without self-trade prevention.\<close>

lemma match_against_side_inv3:
  assumes "match_against_side sd qty lim taker tu ts False b = Done f b'" "inv3 b"
  shows "inv3 b'"
    and "qty - f > 0 \<longrightarrow> best sd (ladder sd b') = sentinel sd \<or> beyond sd (best sd (ladder sd b')) lim"
proof -
  from assms(2) have live: "best_live sd b" by (cases sd) (simp_all add: inv3_def)
  from match_against_side_rel[OF assms(1)] have opp: "ladder (opposite sd) b' = ladder (opposite sd) b"
    by (simp add: loop_rel_def)
  from match_against_side_live[OF assms(1) live] have
    l: "best_live sd b'" and a: "away sd (best sd (ladder sd b)) (best sd (ladder sd b'))"
    and s: "\<forall>j. shrunk (nodes (levels (ladder sd b) j)) (nodes (levels (ladder sd b') j))"
    and e: "qty - f > 0 \<longrightarrow> best sd (ladder sd b') = sentinel sd \<or> beyond sd (best sd (ladder sd b')) lim"
    by simp_all
  from e show "qty - f > 0 \<longrightarrow> best sd (ladder sd b') = sentinel sd \<or> beyond sd (best sd (ladder sd b')) lim" .
  from inv3_side_step[OF assms(2) opp l a s] show "inv3 b'" .
qed

lemma match_opposite_inv3:
  assumes "match_opposite sd cmd b = Done f b'" "inv3 b" "cmd_flags cmd AND STP = 0"
  shows "inv3 b'"
    and "cmd_qty cmd - f > 0 \<longrightarrow>
         best (opposite sd) (ladder (opposite sd) b') = sentinel (opposite sd) \<or>
         beyond (opposite sd) (best (opposite sd) (ladder (opposite sd) b')) (price_ticks cmd)"
proof -
  let ?o = "opposite sd"
  show "inv3 b'"
  proof (cases "match_opposite sd cmd b = Done 0 b")
    case True
    with assms show ?thesis by simp
  next
    case False
    with assms have "match_against_side ?o (cmd_qty cmd) (price_ticks cmd)
                (order_id cmd) (user_id cmd) (recv_ts cmd) False b = Done f b'"
      by (simp add: match_opposite_def Let_def split: if_splits)
    from match_against_side_inv3(1)[OF this assms(2)] show ?thesis .
  qed
  show "cmd_qty cmd - f > 0 \<longrightarrow>
         best ?o (ladder ?o b') = sentinel ?o \<or> beyond ?o (best ?o (ladder ?o b')) (price_ticks cmd)"
  proof (cases "best ?o (ladder ?o b) \<noteq> sentinel ?o \<and>
            (case sd of Bid \<Rightarrow> best ?o (ladder ?o b) \<le> price_ticks cmd
                      | Ask \<Rightarrow> best ?o (ladder ?o b) \<ge> price_ticks cmd)")
    case True
    with assms have "match_against_side ?o (cmd_qty cmd) (price_ticks cmd)
                (order_id cmd) (user_id cmd) (recv_ts cmd) False b = Done f b'"
      by (simp add: match_opposite_def Let_def)
    from match_against_side_inv3(2)[OF this assms(2)] show ?thesis .
  next
    case False
    with assms(1) have "b' = b" by (auto simp: match_opposite_def Let_def)
    with False show ?thesis
      by (cases sd) (auto simp: beyond_def opposite_def)
  qed
qed

section \<open>What the operations do to the ladders\<close>

lemma finish_ladder:
  "finish r b = Done r' b' \<Longrightarrow>
   ladder sd b' = ladder sd b \<and> r' = r \<and> id_index b' = id_index b \<and> next_addr b' = next_addr b"
  using finish_ladders[of r b r' b']
  by (cases sd) (auto simp: ladder_def finish_def split: option.splits)

lemma next_addr_simps [simp]:
  "next_addr (upd_level sd i f b) = next_addr b"
  "next_addr (set_ladder sd pl b) = next_addr b"
  "next_addr (emit_trade b t) = next_addr b"
  by (simp_all add: upd_level_def set_ladder_def emit_trade_def split: side.splits)

subsection \<open>Resting\<close>

definition node_of :: "order_command \<Rightarrow> int \<Rightarrow> nat \<Rightarrow> order_node" where
  "node_of cmd r a =
     \<lparr>n_id = order_id cmd, n_user = user_id cmd, n_qty = r, n_ts = recv_ts cmd,
      n_flags = cmd_flags cmd, n_addr = a\<rparr>"

definition improves :: "side \<Rightarrow> int \<Rightarrow> int \<Rightarrow> bool" where
  "improves sd px cur = (case sd of Bid \<Rightarrow> px > cur | Ask \<Rightarrow> px < cur)"

definition slot_of :: "price_levels \<Rightarrow> int \<Rightarrow> nat" where
  "slot_of pl px = nat (px - min_tick (band pl))"

lemma level_of_slot: "level_of pl px = levels pl (slot_of pl px)"
  by (simp add: level_of_def slot_of_def)

lemma idx_Some: "idx pl px = Some i \<longleftrightarrow> is_valid_price pl px \<and> i = slot_of pl px"
  by (auto simp: idx_def is_valid_price_def slot_of_def)

lemma idx_None: "idx pl px = None \<longleftrightarrow> \<not> is_valid_price pl px"
  by (auto simp: idx_def is_valid_price_def)

text \<open>
  \<^verbatim>\<open>rest_order\<close> appends one node, with a fresh address, to the level of the limit tick
  and takes that tick as best if it improves on the cached best.
\<close>

lemma rest_order_effect:
  assumes "rest_order sd cmd f r b = Done res b'"
  shows "is_valid_price (ladder sd b) (price_ticks cmd)"
    and "ladder (opposite sd) b' = ladder (opposite sd) b"
    and "band (ladder sd b') = band (ladder sd b)"
    and "levels (ladder sd b') = (levels (ladder sd b))
           (slot_of (ladder sd b) (price_ticks cmd) :=
              enqueue (level_of (ladder sd b) (price_ticks cmd)) (node_of cmd r (next_addr b)))"
    and "best sd (ladder sd b') =
           (if improves sd (price_ticks cmd) (best sd (ladder sd b)) then price_ticks cmd
            else best sd (ladder sd b))"
    and "next_addr b' = next_addr b + 1"
    and "res = ExecResult f r"
proof -
  let ?px = "price_ticks cmd"
  let ?i = "slot_of (ladder sd b) ?px"
  let ?b1 = "upd_level sd ?i (\<lambda>level. enqueue level (node_of cmd r (next_addr b)))
               (b\<lparr>next_addr := next_addr b + 1\<rparr>)"
  from assms have v: "idx (ladder sd b) ?px = Some ?i"
    by (cases "idx (ladder sd b) ?px") (simp_all add: rest_order_def idx_Some)
  then show valid: "is_valid_price (ladder sd b) ?px" by (simp add: idx_Some)
  have bb: "best sd (ladder sd ?b1) = best sd (ladder sd b)" by simp
  from assms v obtain pl ix where
    sb: "(if improves sd ?px (best sd (ladder sd b)) then set_best sd (ladder sd ?b1) ?px
          else Some (ladder sd ?b1)) = Some pl"
    and fin: "finish (ExecResult f r) ((set_ladder sd pl ?b1)\<lparr>id_index := ix\<rparr>) = Done res b'"
    unfolding rest_order_def Let_def node_of_def[symmetric] improves_def[symmetric] bb
    by (auto split: option.splits)
  from fin have l: "ladder sd b' = pl" "ladder (opposite sd) b' = ladder (opposite sd) ?b1"
    and r: "res = ExecResult f r" "next_addr b' = next_addr b + 1"
    using finish_ladder[OF fin, of sd] finish_ladder[OF fin, of "opposite sd"] by simp_all
  from l(2) show "ladder (opposite sd) b' = ladder (opposite sd) b" by simp
  from r show "res = ExecResult f r" "next_addr b' = next_addr b + 1" by simp_all
  from sb have pl: "band pl = band (ladder sd ?b1)" "levels pl = levels (ladder sd ?b1)"
    "best sd pl = (if improves sd ?px (best sd (ladder sd b)) then ?px else best sd (ladder sd b))"
    by (auto split: if_splits dest: set_best_eq)
  from pl(1) l(1) show "band (ladder sd b') = band (ladder sd b)" by simp
  from pl(2) l(1) show "levels (ladder sd b') = (levels (ladder sd b))
           (?i := enqueue (level_of (ladder sd b) ?px) (node_of cmd r (next_addr b)))"
    by (simp add: level_of_slot)
  from pl(3) l(1) show "best sd (ladder sd b') =
           (if improves sd ?px (best sd (ladder sd b)) then ?px else best sd (ladder sd b))"
    by simp
qed

subsection \<open>Cancelling\<close>

text \<open>
  \<^verbatim>\<open>cancel\<close> of a known identifier unlinks the node from the level its index entry
  names and, if that level is left empty, refreshes the cached best of the side.
\<close>

lemma cancel_effect:
  assumes "cancel ident b = Done ok b'"
  shows "(fm_find (id_index b) ident = None \<and> \<not> ok \<and> b' = b) \<or>
    (\<exists>entry node b2. fm_find (id_index b) ident = Some entry \<and> ok \<and>
       is_valid_price (ladder (e_side entry) b) (e_price entry) \<and>
       node_at (level_of (ladder (e_side entry) b) (e_price entry)) (e_node entry) = Some node \<and>
       (if level_empty (level_erase (level_of (ladder (e_side entry) b) (e_price entry)) node)
        then refresh_best_after_depletion (e_side entry)
               (upd_level (e_side entry) (slot_of (ladder (e_side entry) b) (e_price entry))
                  (\<lambda>level. level_erase level node) b) = Done () b2
        else b2 = upd_level (e_side entry) (slot_of (ladder (e_side entry) b) (e_price entry))
                    (\<lambda>level. level_erase level node) b) \<and>
       (\<forall>sd. ladder sd b' = ladder sd b2) \<and> next_addr b' = next_addr b2)"
proof (cases "fm_find (id_index b) ident")
  case None
  with assms show ?thesis by (simp add: cancel_def)
next
  case (Some entry)
  let ?sd = "e_side entry"
  let ?i = "slot_of (ladder ?sd b) (e_price entry)"
  from assms Some have v: "idx (ladder ?sd b) (e_price entry) = Some ?i"
    by (cases "idx (ladder ?sd b) (e_price entry)") (simp_all add: cancel_def Let_def idx_Some)
  from assms Some v obtain node where
    n: "node_at (levels (ladder ?sd b) ?i) (e_node entry) = Some node"
    by (cases "node_at (levels (ladder ?sd b) ?i) (e_node entry)") (simp_all add: cancel_def Let_def)
  let ?b1 = "upd_level ?sd ?i (\<lambda>level. level_erase level node) b"
  from assms Some v n obtain b2 ix where
    r: "(if level_empty (levels (ladder ?sd ?b1) ?i)
         then refresh_best_after_depletion ?sd ?b1 else Done () ?b1) = Done () b2"
    and fin: "finish True (b2\<lparr>id_index := ix\<rparr>) = Done ok b'"
    by (auto simp: cancel_def Let_def split: option.splits outcome.splits)
  have "\<forall>sd. ladder sd b' = ladder sd b2" "next_addr b' = next_addr b2" "ok"
    using finish_ladder[OF fin] by simp_all
  moreover from r have "if level_empty (level_erase (level_of (ladder ?sd b) (e_price entry)) node)
        then refresh_best_after_depletion ?sd ?b1 = Done () b2 else b2 = ?b1"
    by (simp add: level_of_slot split: if_splits)
  ultimately have "fm_find (id_index b) ident = Some entry \<and> ok \<and>
       is_valid_price (ladder ?sd b) (e_price entry) \<and>
       node_at (level_of (ladder ?sd b) (e_price entry)) (e_node entry) = Some node \<and>
       (if level_empty (level_erase (level_of (ladder ?sd b) (e_price entry)) node)
        then refresh_best_after_depletion ?sd ?b1 = Done () b2 else b2 = ?b1) \<and>
       (\<forall>sd. ladder sd b' = ladder sd b2) \<and> next_addr b' = next_addr b2"
    using Some v n by (simp add: idx_Some level_of_slot)
  then show ?thesis by blast
qed

subsection \<open>The paths of \<^verbatim>\<open>submit_limit_side\<close>\<close>

lemma submit_limit_side_cases:
  assumes "submit_limit_side sd cmd b = Done res b'"
  shows "(tif cmd = FOK \<and> check_fok_liquidity sd b (cmd_qty cmd) (price_ticks cmd) = Some False \<and>
          finish (ExecResult 0 0) b = Done res b') \<or>
         (\<exists>fq b1. match_opposite sd cmd b = Done fq b1 \<and>
            (if cmd_qty cmd - fq > 0 \<and> tif cmd \<noteq> IOC \<and> tif cmd \<noteq> FOK
             then rest_order sd cmd fq (cmd_qty cmd - fq) b1 = Done res b'
             else finish (ExecResult fq (if cmd_qty cmd - fq > 0 then 0 else cmd_qty cmd - fq)) b1
                  = Done res b'))"
proof (cases "tif cmd = FOK \<and> check_fok_liquidity sd b (cmd_qty cmd) (price_ticks cmd) = Some False")
  case True
  with assms show ?thesis by (auto simp: submit_limit_side_def)
next
  case False
  with assms obtain fq b1 where mo: "match_opposite sd cmd b = Done fq b1"
    and rest: "(if cmd_qty cmd - fq > 0 then
                 if tif cmd = IOC then finish (ExecResult fq 0) b1
                 else if tif cmd = FOK then finish (ExecResult fq 0) b1
                 else rest_order sd cmd fq (cmd_qty cmd - fq) b1
               else finish (ExecResult fq (cmd_qty cmd - fq)) b1) = Done res b'"
    by (auto simp: submit_limit_side_def Let_def split: option.splits bool.splits outcome.splits if_splits)
  from rest have "if cmd_qty cmd - fq > 0 \<and> tif cmd \<noteq> IOC \<and> tif cmd \<noteq> FOK
             then rest_order sd cmd fq (cmd_qty cmd - fq) b1 = Done res b'
             else finish (ExecResult fq (if cmd_qty cmd - fq > 0 then 0 else cmd_qty cmd - fq)) b1
                  = Done res b'"
    by (simp split: if_splits)
  with mo show ?thesis by blast
qed

lemma submit_market_cases:
  assumes "submit_market cmd b = Done res b'"
  shows "\<exists>fq b1. match_against_side (opposite (cmd_side cmd)) (cmd_qty cmd)
            (sentinel (opposite (cmd_side cmd))) (order_id cmd) (user_id cmd)
            (recv_ts cmd) (cmd_flags cmd AND STP \<noteq> 0) b = Done fq b1 \<and>
          finish (ExecResult fq (cmd_qty cmd - fq)) b1 = Done res b'"
  using assms
  by (cases "cmd_side cmd")
     (auto simp: submit_market_def Let_def sentinel_def opposite_def split: outcome.splits)

subsection \<open>The paths of \<^verbatim>\<open>modify\<close>\<close>

lemma modify_cases:
  assumes "modify ident new_price new_qty b = Done res b'"
  shows "(fm_find (id_index b) ident = None \<and> b' = b) \<or>
    (\<exists>entry node. fm_find (id_index b) ident = Some entry \<and>
       is_valid_price (ladder (e_side entry) b) (e_price entry) \<and>
       node_at (level_of (ladder (e_side entry) b) (e_price entry)) (e_node entry) = Some node \<and>
       (if new_price = e_price entry \<and> new_qty < n_qty node
        then finish (ExecResult 0 new_qty)
               (upd_level (e_side entry) (slot_of (ladder (e_side entry) b) (e_price entry))
                  (\<lambda>level. reduce_qty level node (n_qty node - new_qty)) b) = Done res b'
        else \<exists>ok b2. cancel ident (b\<lparr>clock_reads := clock_reads b + 1\<rparr>) = Done ok b2 \<and>
               (if ok then submit_limit
                      \<lparr>cmd_type = NewOrder, recv_ts = clock b (clock_reads b), order_id = ident,
                       user_id = n_user node, price_ticks = new_price, cmd_qty = new_qty,
                       cmd_side = e_side entry, order_type = Limit, tif = GTC,
                       cmd_flags = n_flags node\<rparr> b2 = Done res b'
                else b' = b2)))"
proof (cases "fm_find (id_index b) ident")
  case None
  with assms show ?thesis by (simp add: modify_def)
next
  case (Some entry)
  let ?sd = "e_side entry"
  let ?i = "slot_of (ladder ?sd b) (e_price entry)"
  from assms Some have v: "idx (ladder ?sd b) (e_price entry) = Some ?i"
    by (cases "idx (ladder ?sd b) (e_price entry)") (simp_all add: modify_def idx_Some)
  from assms Some v obtain node where
    n: "node_at (levels (ladder ?sd b) ?i) (e_node entry) = Some node"
    by (cases "node_at (levels (ladder ?sd b) ?i) (e_node entry)") (simp_all add: modify_def)
  show ?thesis
  proof (cases "new_price = e_price entry \<and> new_qty < n_qty node")
    case True
    with assms Some v n have
      "finish (ExecResult 0 new_qty)
         (upd_level ?sd ?i (\<lambda>level. reduce_qty level node (n_qty node - new_qty)) b) = Done res b'"
      by (simp add: modify_def Let_def)
    with True Some v n show ?thesis by (simp add: idx_Some level_of_slot)
  next
    case False
    let ?cmd = "\<lparr>cmd_type = NewOrder, recv_ts = clock b (clock_reads b), order_id = ident,
                 user_id = n_user node, price_ticks = new_price, cmd_qty = new_qty,
                 cmd_side = e_side entry, order_type = Limit, tif = GTC,
                 cmd_flags = n_flags node\<rparr>"
    from assms Some v n False obtain ok b2 where
      c: "cancel ident (b\<lparr>clock_reads := clock_reads b + 1\<rparr>) = Done ok b2"
      and s: "(if \<not> ok then Done (ExecResult 0 0) b2 else submit_limit ?cmd b2) = Done res b'"
      by (auto simp: modify_def Let_def now_ns_def split: outcome.splits if_splits)
    from s have "if ok then submit_limit ?cmd b2 = Done res b' else b' = b2"
      by (simp split: if_splits)
    with c False Some v n show ?thesis by (simp add: idx_Some level_of_slot) blast
  qed
qed

section \<open>The book at rest is not crossed: the commands\<close>

lemma inv3_ladders: "\<forall>sd. ladder sd b' = ladder sd b \<Longrightarrow> inv3 b' = inv3 b"
proof -
  assume a: "\<forall>sd. ladder sd b' = ladder sd b"
  from a[rule_format, of Bid] a[rule_format, of Ask] have "bids b' = bids b" "asks b' = asks b"
    by (simp_all add: ladder_def)
  then show ?thesis by (rule inv3_cong)
qed

lemma nodes_enqueue [simp]: "nodes (enqueue lv n) = nodes lv @ [n]"
  by (simp add: enqueue_def)

lemma not_crossed_sides:
  "not_crossed b =
     (best Bid (ladder Bid b) = sentinel Bid \<or> best Ask (ladder Ask b) = sentinel Ask \<or>
      best Bid (ladder Bid b) < best Ask (ladder Ask b))"
  by (simp add: not_crossed_def best_def ladder_def sentinel_def)

text \<open>
  Resting at a tick that the opposite best does not reach keeps the book uncrossed.
\<close>

lemma rest_order_inv3:
  assumes r: "rest_order sd cmd f q b = Done res b'"
    and i: "inv3 b"
    and fl: "cmd_flags cmd AND STP = 0"
    and x: "best (opposite sd) (ladder (opposite sd) b) = sentinel (opposite sd) \<or>
            beyond (opposite sd) (best (opposite sd) (ladder (opposite sd) b)) (price_ticks cmd)"
  shows "inv3 b'"
proof -
  let ?px = "price_ticks cmd" and ?o = "opposite sd"
  let ?i = "slot_of (ladder sd b) ?px"
  note e = rest_order_effect[OF r]
  from i have live: "best_live sd b" and olive: "best_live ?o b"
    by (cases sd; simp add: inv3_def opposite_def)+
  have lv: "\<not> level_empty (levels (ladder sd b') ?i)"
    by (simp add: e(4) level_empty_def)
  have keep: "\<not> level_empty (levels (ladder sd b) j) \<Longrightarrow> \<not> level_empty (levels (ladder sd b') j)" for j
    by (simp add: e(4) level_empty_def)
  have 1: "best_live sd b'"
  proof (cases "improves sd ?px (best sd (ladder sd b))")
    case True
    with e(5) have "best sd (ladder sd b') = ?px" by simp
    with e(1) e(3) lv show ?thesis
      by (simp add: best_live_def is_valid_price_def level_of_slot slot_of_def)
  next
    case False
    with e(5) have s: "best sd (ladder sd b') = best sd (ladder sd b)" by simp
    show ?thesis
    proof (cases "best sd (ladder sd b) = sentinel sd")
      case True
      with s show ?thesis by (simp add: best_live_def)
    next
      case False
      with live have "is_valid_price (ladder sd b) (best sd (ladder sd b))"
        "\<not> level_empty (levels (ladder sd b) (slot_of (ladder sd b) (best sd (ladder sd b))))"
        by (simp_all add: best_live_def level_of_slot)
      with keep[of "slot_of (ladder sd b) (best sd (ladder sd b))"] s e(3) show ?thesis
        by (simp add: best_live_def is_valid_price_def level_of_slot slot_of_def)
    qed
  qed
  from best_live_other[OF e(2)] olive have 2: "best_live ?o b'" by simp
  from i have nc: "not_crossed b" by (simp add: inv3_def)
  have 3: "not_crossed b'"
  proof (cases sd)
    case Bid
    with e(2) have o: "ladder Ask b' = ladder Ask b" by (simp add: opposite_def)
    from e(5) x nc Bid show ?thesis
      unfolding not_crossed_sides o
      by (auto simp: improves_def beyond_def opposite_def split: if_splits)
  next
    case Ask
    with e(2) have o: "ladder Bid b' = ladder Bid b" by (simp add: opposite_def)
    from e(5) x nc Ask show ?thesis
      unfolding not_crossed_sides o
      by (auto simp: improves_def beyond_def opposite_def split: if_splits)
  qed
  from i have ns: "no_stp_resting b" by (simp add: inv3_def)
  have 4: "no_stp_resting b'"
    unfolding no_stp_resting_def
  proof (intro allI ballI)
    fix s j n assume n: "n \<in> set (nodes (levels (ladder s b') j))"
    show "n_flags n AND STP = 0"
    proof (cases "s = sd")
      case True
      with n have "n \<in> set (nodes (levels (ladder sd b) j)) \<or> n = node_of cmd q (next_addr b)"
        by (auto simp: e(4) level_of_slot split: if_splits)
      with ns fl show ?thesis by (auto simp: no_stp_resting_def node_of_def)
    next
      case False
      then have "s = ?o" by (cases s; cases sd) (simp_all add: opposite_def)
      with n e(2) ns show ?thesis by (auto simp: no_stp_resting_def)
    qed
  qed
  from 1 2 have "best_live Bid b'" "best_live Ask b'" by (cases sd; simp add: opposite_def)+
  with 3 4 show ?thesis by (simp add: inv3_def)
qed

lemma submit_limit_side_inv3:
  assumes s: "submit_limit_side sd cmd b = Done res b'"
    and i: "inv3 b" and fl: "cmd_flags cmd AND STP = 0"
  shows "inv3 b'"
proof -
  from submit_limit_side_cases[OF s] consider
    "finish (ExecResult 0 0) b = Done res b'"
    | fq b1 where "match_opposite sd cmd b = Done fq b1"
        "cmd_qty cmd - fq > 0" "rest_order sd cmd fq (cmd_qty cmd - fq) b1 = Done res b'"
    | fq b1 r where "match_opposite sd cmd b = Done fq b1" "finish (ExecResult fq r) b1 = Done res b'"
    by (auto split: if_splits)
  then show ?thesis
  proof cases
    case 1
    from finish_inv3[OF this i] show ?thesis .
  next
    case 2
    from match_opposite_inv3[OF 2(1) i fl] 2(2) rest_order_inv3[OF 2(3) _ fl]
    show ?thesis by simp
  next
    case 3
    from match_opposite_inv3(1)[OF 3(1) i fl] finish_inv3[OF 3(2)] show ?thesis by simp
  qed
qed

lemma submit_limit_inv3:
  "submit_limit cmd b = Done res b' \<Longrightarrow> inv3 b \<Longrightarrow> cmd_flags cmd AND STP = 0 \<Longrightarrow> inv3 b'"
  by (auto simp: submit_limit_def split: if_splits dest: submit_limit_side_inv3)

lemma submit_market_inv3:
  assumes s: "submit_market cmd b = Done res b'"
    and i: "inv3 b" and fl: "cmd_flags cmd AND STP = 0"
  shows "inv3 b'"
proof -
  from submit_market_cases[OF s] fl obtain fq b1 where
    m: "match_against_side (opposite (cmd_side cmd)) (cmd_qty cmd)
            (sentinel (opposite (cmd_side cmd))) (order_id cmd) (user_id cmd)
            (recv_ts cmd) False b = Done fq b1"
    and fin: "finish (ExecResult fq (cmd_qty cmd - fq)) b1 = Done res b'"
    by auto
  from finish_inv3[OF fin match_against_side_inv3(1)[OF m i]] show ?thesis .
qed

lemma nodes_level_erase_empty:
  "\<not> level_empty (level_erase lv n) \<Longrightarrow> \<not> level_empty lv"
  by (auto simp: level_empty_def level_erase_def)

lemma cancel_inv3:
  assumes c: "cancel ident b = Done ok b'" and i: "inv3 b"
  shows "inv3 b'"
proof -
  from cancel_effect[OF c] show ?thesis
  proof (elim disjE exE conjE)
    assume "b' = b"
    with i show ?thesis by simp
  next
    fix entry node b2
    assume 2: "is_valid_price (ladder (e_side entry) b) (e_price entry)"
       "if level_empty (level_erase (level_of (ladder (e_side entry) b) (e_price entry)) node)
        then refresh_best_after_depletion (e_side entry)
               (upd_level (e_side entry) (slot_of (ladder (e_side entry) b) (e_price entry))
                  (\<lambda>level. level_erase level node) b) = Done () b2
        else b2 = upd_level (e_side entry) (slot_of (ladder (e_side entry) b) (e_price entry))
                    (\<lambda>level. level_erase level node) b"
       "\<forall>sd. ladder sd b' = ladder sd b2"
    let ?sd = "e_side entry"
    let ?j = "slot_of (ladder ?sd b) (e_price entry)"
    let ?b1 = "upd_level ?sd ?j (\<lambda>level. level_erase level node) b"
    from i have live: "best_live ?sd b" by (cases ?sd) (simp_all add: inv3_def)
    have sh1: "shrunk (nodes (levels (ladder ?sd b) k)) (nodes (levels (ladder ?sd ?b1) k))" for k
      by (simp add: shrunk_level_erase)
    have "inv3 b2"
    proof (cases "level_empty (level_erase (level_of (ladder ?sd b) (e_price entry)) node)")
      case True
      with 2(2) have r: "refresh_best_after_depletion ?sd ?b1 = Done () b2" by simp
      note f = refresh_frame[OF r]
      have "away ?sd (best ?sd (ladder ?sd b)) (best ?sd (ladder ?sd ?b1))" by simp
      from refresh_away[OF r this] have a: "away ?sd (best ?sd (ladder ?sd b)) (best ?sd (ladder ?sd b2))" .
      from f(4) have opp: "ladder (opposite ?sd) b2 = ladder (opposite ?sd) b" by simp
      from f(5) sh1 have sh: "\<forall>k. shrunk (nodes (levels (ladder ?sd b) k)) (nodes (levels (ladder ?sd b2) k))"
        by simp
      from inv3_side_step[OF i opp refresh_best_live[OF r] a sh] show ?thesis .
    next
      case False
      with 2(2) have b2: "b2 = ?b1" by simp
      have opp: "ladder (opposite ?sd) ?b1 = ladder (opposite ?sd) b" by simp
      have a: "away ?sd (best ?sd (ladder ?sd b)) (best ?sd (ladder ?sd ?b1))" by simp
      have l: "best_live ?sd ?b1"
      proof (cases "best ?sd (ladder ?sd b) = sentinel ?sd")
        case True
        then show ?thesis by (simp add: best_live_def)
      next
        case nz: False
        with live have v: "is_valid_price (ladder ?sd b) (best ?sd (ladder ?sd b))"
          and ne: "\<not> level_empty (levels (ladder ?sd b) (slot_of (ladder ?sd b) (best ?sd (ladder ?sd b))))"
          by (simp_all add: best_live_def level_of_slot)
        from ne False have "\<not> level_empty (levels (ladder ?sd ?b1)
                  (slot_of (ladder ?sd b) (best ?sd (ladder ?sd b))))"
          by (simp add: level_of_slot)
        with v show ?thesis
          by (simp add: best_live_def is_valid_price_def level_of_slot slot_of_def)
      qed
      from sh1 have sh: "\<forall>k. shrunk (nodes (levels (ladder ?sd b) k)) (nodes (levels (ladder ?sd ?b1) k))"
        by simp
      from inv3_side_step[OF i opp l a sh] b2 show ?thesis by simp
    qed
    with inv3_ladders[OF 2(3)] show ?thesis by simp
  qed
qed

lemma nodes_reduce_qty_empty:
  "level_empty (reduce_qty lv n r) = level_empty lv"
  by (simp add: level_empty_def reduce_qty_def)

lemma modify_inv3:
  assumes m: "modify ident new_price new_qty b = Done res b'" and i: "inv3 b"
  shows "inv3 b'"
proof -
  from modify_cases[OF m] show ?thesis
  proof (elim disjE exE conjE)
    assume "b' = b"
    with i show ?thesis by simp
  next
    fix entry node
    let ?sd = "e_side entry"
    let ?j = "slot_of (ladder ?sd b) (e_price entry)"
    let ?b1 = "upd_level ?sd ?j (\<lambda>level. reduce_qty level node (n_qty node - new_qty)) b"
    let ?cmd = "\<lparr>cmd_type = NewOrder, recv_ts = clock b (clock_reads b), order_id = ident,
                       user_id = n_user node, price_ticks = new_price, cmd_qty = new_qty,
                       cmd_side = e_side entry, order_type = Limit, tif = GTC,
                       cmd_flags = n_flags node\<rparr>"
    assume n: "node_at (level_of (ladder ?sd b) (e_price entry)) (e_node entry) = Some node"
      and br: "if new_price = e_price entry \<and> new_qty < n_qty node
        then finish (ExecResult 0 new_qty) ?b1 = Done res b'
        else \<exists>ok b2. cancel ident (b\<lparr>clock_reads := clock_reads b + 1\<rparr>) = Done ok b2 \<and>
               (if ok then submit_limit ?cmd b2 = Done res b' else b' = b2)"
    show ?thesis
    proof (cases "new_price = e_price entry \<and> new_qty < n_qty node")
      case True
      with br have fin: "finish (ExecResult 0 new_qty) ?b1 = Done res b'" by simp
      from i have live: "best_live ?sd b" by (cases ?sd) (simp_all add: inv3_def)
      have opp: "ladder (opposite ?sd) ?b1 = ladder (opposite ?sd) b" by simp
      have a: "away ?sd (best ?sd (ladder ?sd b)) (best ?sd (ladder ?sd ?b1))" by simp
      have sh: "\<forall>k. shrunk (nodes (levels (ladder ?sd b) k)) (nodes (levels (ladder ?sd ?b1) k))"
        by (simp add: shrunk_reduce_qty)
      from live have l: "best_live ?sd ?b1"
        unfolding best_live_def level_of_slot
        by (auto simp: nodes_reduce_qty_empty is_valid_price_def slot_of_def)
      from finish_inv3[OF fin inv3_side_step[OF i opp l a sh]] show ?thesis .
    next
      case False
      with br obtain ok b2 where
        c: "cancel ident (b\<lparr>clock_reads := clock_reads b + 1\<rparr>) = Done ok b2"
        and s: "if ok then submit_limit ?cmd b2 = Done res b' else b' = b2"
        by auto
      from node_at_Some[OF n] have "node \<in> set (nodes (levels (ladder ?sd b) ?j))"
        by (simp add: level_of_slot)
      with i have fl: "n_flags node AND STP = 0" by (auto simp: inv3_def no_stp_resting_def)
      have "inv3 (b\<lparr>clock_reads := clock_reads b + 1\<rparr>)"
        using inv3_cong[of "b\<lparr>clock_reads := clock_reads b + 1\<rparr>" b] i by simp
      from cancel_inv3[OF c this] have i2: "inv3 b2" .
      show ?thesis
      proof (cases ok)
        case True
        with s have "submit_limit ?cmd b2 = Done res b'" by simp
        from submit_limit_inv3[OF this i2] fl show ?thesis by simp
      next
        case False
        with s i2 show ?thesis by simp
      qed
    qed
  qed
qed

lemma process_inv3:
  assumes p: "process cmd b = Done u b'" and i: "inv3 b"
    and fl: "cmd_type cmd = NewOrder \<longrightarrow> cmd_flags cmd AND STP = 0"
  shows "inv3 b'"
proof (cases "cmd_type cmd")
  case NewOrder
  show ?thesis
  proof (cases "order_type cmd = Limit")
    case True
    with p NewOrder obtain r where "submit_limit cmd b = Done r b'"
      by (auto simp: process_def split: outcome.splits)
    from submit_limit_inv3[OF this i] fl NewOrder show ?thesis by simp
  next
    case False
    with p NewOrder obtain r where "submit_market cmd b = Done r b'"
      by (auto simp: process_def split: outcome.splits)
    from submit_market_inv3[OF this i] fl NewOrder show ?thesis by simp
  qed
next
  case CancelOrder
  with p obtain r where "cancel (order_id cmd) b = Done r b'"
    by (auto simp: process_def split: outcome.splits)
  from cancel_inv3[OF this i] show ?thesis .
next
  case ModifyOrder
  with p obtain r where "modify (order_id cmd) (price_ticks cmd) (cmd_qty cmd) b = Done r b'"
    by (auto simp: process_def split: outcome.splits)
  from modify_inv3[OF this i] show ?thesis .
qed

lemma run_inv3:
  "run cmds b = Done u b' \<Longrightarrow> inv3 b \<Longrightarrow>
   \<forall>cmd \<in> set cmds. cmd_type cmd = NewOrder \<longrightarrow> cmd_flags cmd AND STP = 0 \<Longrightarrow> inv3 b'"
proof (induction cmds arbitrary: b)
  case Nil
  then show ?case by simp
next
  case (Cons cmd cmds)
  from Cons.prems(1) obtain b1 where p: "process cmd b = Done () b1" and r: "run cmds b1 = Done u b'"
    by (auto split: outcome.splits)
  from process_inv3[OF p Cons.prems(2)] Cons.prems(3) have "inv3 b1" by simp
  from Cons.IH[OF r this] Cons.prems(3) show ?case by simp
qed

lemma inv3_new_book: "inv3 (new_book symbol bd clk)"
  by (simp add: inv3_def best_live_def not_crossed_def no_stp_resting_def new_book_def ladder_def
      PriceLevelsArray_def best_def sentinel_def empty_level_def split: side.splits)

text \<open>
  C3 (amended): if no \<^verbatim>\<open>NewOrder\<close> of the sequence carries the \<^verbatim>\<open>STP\<close> flag, then after
  every command sequence that the engine completes on a fresh book, one of the cached
  best ticks is its sentinel (that side reports empty) or \<open>best_bid < best_ask\<close>.
\<close>

theorem C3_not_crossed_without_stp:
  assumes "\<forall>cmd \<in> set cmds. cmd_type cmd = NewOrder \<longrightarrow> cmd_flags cmd AND STP = 0"
    and "run cmds (new_book symbol bd clk) = Done u b"
  shows "pl_best_bid (bids b) = EMPTY_BID \<or> pl_best_ask (asks b) = EMPTY_ASK \<or>
         pl_best_bid (bids b) < pl_best_ask (asks b)"
  using run_inv3[OF assms(2) inv3_new_book assms(1)]
  by (simp add: inv3_def not_crossed_def)

text \<open>
  C3, counterexample: user 100 rests an ask of 10 at tick 150 and then sends a bid of 5 at
  tick 155 with the \<^verbatim>\<open>STP\<close> flag. The matching loop skips the user's own ask and the bid
  rests at 155: both sides are non-empty and \<open>best_bid = 155 \<ge> best_ask = 150\<close>.
\<close>

theorem C3_counterexample:
  "\<exists>b. run [limit_order 1 100 Ask 150 10 GTC 0, limit_order 2 100 Bid 155 5 GTC STP]
          (new_book 1 band_100_200 (\<lambda>_. 0)) = Done () b \<and>
       pl_best_bid (bids b) = 155 \<and> pl_best_ask (asks b) = 150"
  by (simp add: eval_defs limit_order_def band_100_200_def match_level.simps)

theorem C3_witness:
  "\<exists>b. run [limit_order 1 7 Ask 150 5 GTC 0, limit_order 2 8 Bid 140 10 GTC 0]
          (new_book 1 band_100_200 (\<lambda>_. 0)) = Done () b \<and>
       pl_best_bid (bids b) = 140 \<and> pl_best_ask (asks b) = 150 \<and>
       (pl_best_bid (bids b) = EMPTY_BID \<or> pl_best_ask (asks b) = EMPTY_ASK \<or>
        pl_best_bid (bids b) < pl_best_ask (asks b))"
proof -
  let ?cmds = "[limit_order 1 7 Ask 150 5 GTC 0, limit_order 2 8 Bid 140 10 GTC 0]"
  have f: "\<forall>cmd \<in> set ?cmds. cmd_type cmd = NewOrder \<longrightarrow> cmd_flags cmd AND STP = 0"
    by (simp add: limit_order_def)
  have "\<exists>b. run ?cmds (new_book 1 band_100_200 (\<lambda>_. 0)) = Done () b \<and>
       pl_best_bid (bids b) = 140 \<and> pl_best_ask (asks b) = 150"
    by (simp add: eval_defs limit_order_def band_100_200_def match_level.simps)
  then obtain b where b: "run ?cmds (new_book 1 band_100_200 (\<lambda>_. 0)) = Done () b"
    "pl_best_bid (bids b) = 140" "pl_best_ask (asks b) = 150" by blast
  from C3_not_crossed_without_stp[OF f b(1)] b show ?thesis by blast
qed

section \<open>The cached best ticks\<close>

text \<open>A tick of the band that holds at least one resting order.\<close>

definition nonempty_at :: "price_levels \<Rightarrow> int \<Rightarrow> bool" where
  "nonempty_at pl px = (is_valid_price pl px \<and> \<not> level_empty (level_of pl px))"

text \<open>
  The cached best of a side is exact: it is the sentinel or a tick holding an order, and
  every tick holding an order is no better than it (so the side is not reported empty).
\<close>

definition best_exact :: "side \<Rightarrow> price_levels \<Rightarrow> bool" where
  "best_exact sd pl =
     ((best sd pl = sentinel sd \<or> nonempty_at pl (best sd pl)) \<and>
      (\<forall>px. nonempty_at pl px \<longrightarrow> best sd pl \<noteq> sentinel sd \<and> \<not> improves sd px (best sd pl)))"

text \<open>
  The band lies strictly between the sentinels and is no wider than the search of
  \<^verbatim>\<open>refresh_best_after_depletion\<close>.
\<close>

definition band_fits :: "price_band \<Rightarrow> bool" where
  "band_fits bd = (EMPTY_BID < min_tick bd \<and> max_tick bd < EMPTY_ASK \<and>
                   max_tick bd - min_tick bd \<le> MAX_SEARCH)"

text \<open>The number of ticks from \<open>cur\<close> to \<open>px\<close> in the direction of the search.\<close>

definition dist :: "side \<Rightarrow> int \<Rightarrow> int \<Rightarrow> int" where
  "dist sd cur px = (case sd of Bid \<Rightarrow> cur - px | Ask \<Rightarrow> px - cur)"

lemma scan_px_dist [simp]: "scan_px sd cur (dist sd cur px) = px"
  by (simp add: scan_px_def dist_def split: side.splits)

lemma dist_scan_px [simp]: "dist sd cur (scan_px sd cur k) = k"
  by (simp add: scan_px_def dist_def split: side.splits)

lemma dist_valid:
  "is_valid_price pl cur \<Longrightarrow> is_valid_price pl px \<Longrightarrow>
   dist sd cur px \<le> max_tick (band pl) - min_tick (band pl)"
  by (simp add: is_valid_price_def dist_def split: side.splits)

text \<open>
  The search after a depletion, started from a best tick that no tick holding an order
  equals or betters, finds the exact best of the side.
\<close>

lemma refresh_scan_exact:
  assumes r: "refresh_scan sd pl cur 1 = Some pl'"
    and fits: "band_fits (band pl)"
    and v: "is_valid_price pl cur"
    and worse: "\<forall>px. nonempty_at pl px \<longrightarrow> 0 < dist sd cur px"
  shows "best_exact sd pl'"
proof -
  from refresh_scan_result[of 1 pl sd cur] obtain j where j: "1 \<le> j"
    and gap: "\<forall>k. 1 \<le> k \<and> k < j \<longrightarrow>
              level_empty (levels pl (nat (scan_px sd cur k - min_tick (band pl))))"
    and res: "(j \<le> MAX_SEARCH \<and> is_valid_price pl (scan_px sd cur j) \<and>
       \<not> level_empty (levels pl (nat (scan_px sd cur j - min_tick (band pl)))) \<and>
       refresh_scan sd pl cur 1 = set_best sd pl (scan_px sd cur j)) \<or>
      ((j > MAX_SEARCH \<or> past_sentinel sd (scan_px sd cur j) \<or>
        \<not> is_valid_price pl (scan_px sd cur j)) \<and>
       refresh_scan sd pl cur 1 = set_best sd pl (sentinel sd))"
    by blast
  have far: "j \<le> dist sd cur px" if "nonempty_at pl px" for px
  proof (rule ccontr)
    assume "\<not> j \<le> dist sd cur px"
    with worse that have "1 \<le> dist sd cur px \<and> dist sd cur px < j" by auto
    with gap have "level_empty (levels pl (nat (scan_px sd cur (dist sd cur px) - min_tick (band pl))))"
      by blast
    with that show False by (simp add: nonempty_at_def level_of_def)
  qed
  from res show ?thesis
  proof
    assume f: "j \<le> MAX_SEARCH \<and> is_valid_price pl (scan_px sd cur j) \<and>
       \<not> level_empty (levels pl (nat (scan_px sd cur j - min_tick (band pl)))) \<and>
       refresh_scan sd pl cur 1 = set_best sd pl (scan_px sd cur j)"
    with r have "set_best sd pl (scan_px sd cur j) = Some pl'" by simp
    from set_best_eq[OF this] have e: "best sd pl' = scan_px sd cur j" "levels pl' = levels pl"
      "band pl' = band pl" by simp_all
    from f e have 1: "nonempty_at pl' (best sd pl')"
      by (simp add: nonempty_at_def level_of_def is_valid_price_def)
    from f fits e have 2: "best sd pl' \<noteq> sentinel sd"
      by (cases sd) (auto simp: is_valid_price_def band_fits_def sentinel_def)
    have 3: "\<not> improves sd px (best sd pl')" if "nonempty_at pl' px" for px
    proof -
      from that e have "nonempty_at pl px"
        by (simp add: nonempty_at_def level_of_def is_valid_price_def)
      from far[OF this] e(1) show ?thesis
        by (simp add: improves_def dist_def scan_px_def split: side.splits)
    qed
    from 1 2 3 show ?thesis by (simp add: best_exact_def)
  next
    assume s: "(j > MAX_SEARCH \<or> past_sentinel sd (scan_px sd cur j) \<or>
        \<not> is_valid_price pl (scan_px sd cur j)) \<and>
       refresh_scan sd pl cur 1 = set_best sd pl (sentinel sd)"
    with r have "set_best sd pl (sentinel sd) = Some pl'" by simp
    from set_best_eq[OF this] have e: "best sd pl' = sentinel sd" "levels pl' = levels pl"
      "band pl' = band pl" by simp_all
    have "\<not> nonempty_at pl' px" for px
    proof
      assume "nonempty_at pl' px"
      with e have n: "nonempty_at pl px"
        by (simp add: nonempty_at_def level_of_def is_valid_price_def)
      then have vp: "is_valid_price pl px" by (simp add: nonempty_at_def)
      from far[OF n] have d: "j \<le> dist sd cur px" .
      from dist_valid[OF v vp, of sd] fits have "dist sd cur px \<le> MAX_SEARCH"
        by (simp add: band_fits_def)
      with d have 1: "\<not> j > MAX_SEARCH" by simp
      from d j v vp fits have 2: "\<not> past_sentinel sd (scan_px sd cur j)"
        by (cases sd)
           (auto simp: past_sentinel_def scan_px_def dist_def is_valid_price_def band_fits_def)
      from d j v vp have 3: "is_valid_price pl (scan_px sd cur j)"
        by (cases sd) (auto simp: scan_px_def dist_def is_valid_price_def)
      from s 1 2 3 show False by blast
    qed
    with e(1) show ?thesis by (simp add: best_exact_def)
  qed
qed

lemma refresh_exact:
  assumes r: "refresh_best_after_depletion sd b = Done u b'"
    and fits: "band_fits (band (ladder sd b))"
    and ne: "best sd (ladder sd b) \<noteq> sentinel sd"
    and v: "is_valid_price (ladder sd b) (best sd (ladder sd b))"
    and worse: "\<forall>px. nonempty_at (ladder sd b) px \<longrightarrow> 0 < dist sd (best sd (ladder sd b)) px"
  shows "best_exact sd (ladder sd b')"
proof -
  from r ne obtain pl where s: "refresh_scan sd (ladder sd b) (best sd (ladder sd b)) 1 = Some pl"
    and b': "b' = set_ladder sd pl b"
    by (auto simp: refresh_best_after_depletion_def Let_def split: option.splits)
  from refresh_scan_exact[OF s fits v worse] b' show ?thesis by simp
qed

text \<open>The search gives up after \<^verbatim>\<open>MAX_SEARCH\<close> empty ticks, whatever lies beyond them.\<close>

lemma refresh_scan_cap:
  assumes "\<forall>k. 1 \<le> k \<and> k \<le> MAX_SEARCH \<longrightarrow>
             level_empty (levels pl (nat (scan_px sd cur k - min_tick (band pl))))"
  shows "refresh_scan sd pl cur 1 = set_best sd pl (sentinel sd)"
  using refresh_scan_result[of 1 pl sd cur] assms by auto

subsection \<open>Matching keeps the cached best exact\<close>

lemma slot_of_inj:
  "is_valid_price pl px \<Longrightarrow> is_valid_price pl py \<Longrightarrow> slot_of pl px = slot_of pl py \<Longrightarrow> px = py"
  unfolding is_valid_price_def slot_of_def by (auto dest: arg_cong[where f = int])

lemma cur_slot_slot_of: "cur_slot sd b = slot_of (ladder sd b) (best sd (ladder sd b))"
  by (simp add: cur_slot_def slot_of_def)

lemma dist_self_pos: "px \<noteq> c \<Longrightarrow> \<not> improves sd px c \<Longrightarrow> 0 < dist sd c px"
  by (simp add: improves_def dist_def split: side.splits)

text \<open>A change of the best level only.\<close>

lemma exact_level_change:
  assumes ex: "best_exact sd pl"
    and bd: "band pl' = band pl"
    and bs: "best sd pl' = best sd pl"
    and lv: "\<forall>j. j \<noteq> slot_of pl (best sd pl) \<longrightarrow> levels pl' j = levels pl j"
    and ne: "best sd pl \<noteq> sentinel sd"
  shows "\<not> level_empty (levels pl' (slot_of pl (best sd pl))) \<Longrightarrow> best_exact sd pl'"
    and "level_empty (levels pl' (slot_of pl (best sd pl))) \<Longrightarrow>
         is_valid_price pl' (best sd pl') \<and>
         (\<forall>px. nonempty_at pl' px \<longrightarrow> 0 < dist sd (best sd pl') px)"
proof -
  let ?c = "best sd pl"
  from ex ne have v: "is_valid_price pl ?c" by (simp add: best_exact_def nonempty_at_def)
  have sl: "slot_of pl' px = slot_of pl px" for px by (simp add: slot_of_def bd)
  have vl: "is_valid_price pl' px = is_valid_price pl px" for px by (simp add: is_valid_price_def bd)
  have other: "nonempty_at pl px" if "nonempty_at pl' px" "px \<noteq> ?c" for px
  proof -
    from that(1) have vp: "is_valid_price pl px" by (simp add: nonempty_at_def vl)
    with v that(2) slot_of_inj[of pl px ?c] have "slot_of pl px \<noteq> slot_of pl ?c" by blast
    with lv have "levels pl' (slot_of pl px) = levels pl (slot_of pl px)" by simp
    with that(1) vp show ?thesis by (simp add: nonempty_at_def level_of_slot sl)
  qed
  {
    assume n: "\<not> level_empty (levels pl' (slot_of pl ?c))"
    with v have 1: "nonempty_at pl' (best sd pl')"
      by (simp add: nonempty_at_def level_of_slot sl vl bs)
    have 2: "\<not> improves sd px ?c" if "nonempty_at pl' px" for px
    proof (cases "px = ?c")
      case True
      then show ?thesis by (simp add: improves_def split: side.splits)
    next
      case False
      from other[OF that False] ex show ?thesis by (simp add: best_exact_def)
    qed
    from 1 2 ne show "best_exact sd pl'" by (simp add: best_exact_def bs)
  }
  {
    assume e: "level_empty (levels pl' (slot_of pl ?c))"
    have "0 < dist sd (best sd pl') px" if "nonempty_at pl' px" for px
    proof -
      from that e have d: "px \<noteq> ?c" by (auto simp: nonempty_at_def level_of_slot sl)
      from other[OF that d] ex have "\<not> improves sd px ?c" by (simp add: best_exact_def)
      from dist_self_pos[OF d this] show ?thesis by (simp add: bs)
    qed
    with v show "is_valid_price pl' (best sd pl') \<and>
         (\<forall>px. nonempty_at pl' px \<longrightarrow> 0 < dist sd (best sd pl') px)"
      by (simp add: vl bs)
  }
qed

lemma match_against_side_exact:
  assumes m: "match_against_side sd qty lim taker tu ts stp b = Done f b'"
    and ex: "best_exact sd (ladder sd b)"
    and fits: "band_fits (band (ladder sd b))"
  shows "best_exact sd (ladder sd b') \<and> band (ladder sd b') = band (ladder sd b)"
  using m[unfolded match_against_side_def]
proof (rule match_loop_rule[where
      I = "\<lambda>q t x. best_exact sd (ladder sd x) \<and> band (ladder sd x) = band (ladder sd b)"
      and Q = "\<lambda>t x. best_exact sd (ladder sd x) \<and> band (ladder sd x) = band (ladder sd b)"])
  show "best_exact sd (ladder sd b) \<and> band (ladder sd b) = band (ladder sd b)"
    using ex by simp
next
  fix q t x
  assume "best_exact sd (ladder sd x) \<and> band (ladder sd x) = band (ladder sd b)"
  then show "best_exact sd (ladder sd x) \<and> band (ladder sd x) = band (ladder sd b)" .
next
  fix q t x r b1
  assume I: "best_exact sd (ladder sd x) \<and> band (ladder sd x) = band (ladder sd b)"
    and ns: "\<not> stops sd lim q x"
    and ml: "match_level sd (cur_slot sd x) (best sd (ladder sd x)) taker tu ts stp
          (nodes (levels (ladder sd x) (cur_slot sd x))) q t x = Done r b1"
    and ne: "\<not> level_empty (levels (ladder sd b1) (cur_slot sd x))"
  from match_level_rel[OF ml] have
    bd: "band (ladder sd b1) = band (ladder sd x)"
    and bs: "best sd (ladder sd b1) = best sd (ladder sd x)"
    and lv: "\<forall>j. j \<noteq> slot_of (ladder sd x) (best sd (ladder sd x)) \<longrightarrow>
                levels (ladder sd b1) j = levels (ladder sd x) j"
    by (simp_all add: match_rel_def cur_slot_slot_of)
  from ns have nz: "best sd (ladder sd x) \<noteq> sentinel sd" by (simp add: stops_def)
  from exact_level_change(1)[OF I[THEN conjunct1] bd bs lv nz] ne bd I
  show "best_exact sd (ladder sd b1) \<and> band (ladder sd b1) = band (ladder sd b)"
    by (simp add: cur_slot_slot_of)
next
  fix q t x r b1 b2
  assume I: "best_exact sd (ladder sd x) \<and> band (ladder sd x) = band (ladder sd b)"
    and ns: "\<not> stops sd lim q x"
    and ml: "match_level sd (cur_slot sd x) (best sd (ladder sd x)) taker tu ts stp
          (nodes (levels (ladder sd x) (cur_slot sd x))) q t x = Done r b1"
    and em: "level_empty (levels (ladder sd b1) (cur_slot sd x))"
    and rf: "refresh_best_after_depletion sd b1 = Done () b2"
  from match_level_rel[OF ml] have
    bd: "band (ladder sd b1) = band (ladder sd x)"
    and bs: "best sd (ladder sd b1) = best sd (ladder sd x)"
    and lv: "\<forall>j. j \<noteq> slot_of (ladder sd x) (best sd (ladder sd x)) \<longrightarrow>
                levels (ladder sd b1) j = levels (ladder sd x) j"
    by (simp_all add: match_rel_def cur_slot_slot_of)
  from ns have nz: "best sd (ladder sd x) \<noteq> sentinel sd" by (simp add: stops_def)
  from exact_level_change(2)[OF I[THEN conjunct1] bd bs lv nz] em have
    v: "is_valid_price (ladder sd b1) (best sd (ladder sd b1))"
    and w: "\<forall>px. nonempty_at (ladder sd b1) px \<longrightarrow> 0 < dist sd (best sd (ladder sd b1)) px"
    by (simp_all add: cur_slot_slot_of)
  from fits bd I have f1: "band_fits (band (ladder sd b1))" by simp
  from nz bs have n1: "best sd (ladder sd b1) \<noteq> sentinel sd" by simp
  from refresh_exact[OF rf f1 n1 v w] refresh_frame(6)[OF rf] bd I
  show "best_exact sd (ladder sd b2) \<and> band (ladder sd b2) = band (ladder sd b)"
    by simp
qed

subsection \<open>Resting keeps the cached best exact\<close>

lemma improves_irrefl [simp]: "\<not> improves sd px px"
  by (simp add: improves_def split: side.splits)

lemma improves_trans_not:
  "improves sd px c \<Longrightarrow> \<not> improves sd y c \<Longrightarrow> \<not> improves sd y px"
  by (auto simp: improves_def split: side.splits)

lemma improves_sentinel:
  "band_fits (band pl) \<Longrightarrow> is_valid_price pl px \<Longrightarrow> improves sd px (sentinel sd) \<and> px \<noteq> sentinel sd"
  by (auto simp: band_fits_def is_valid_price_def improves_def sentinel_def split: side.splits)

lemma rest_order_exact:
  assumes r: "rest_order sd cmd f q b = Done res b'"
    and ex: "best_exact sd (ladder sd b)"
    and fits: "band_fits (band (ladder sd b))"
  shows "best_exact sd (ladder sd b')"
proof -
  let ?px = "price_ticks cmd" and ?pl = "ladder sd b" and ?pl' = "ladder sd b'"
  let ?c = "best sd ?pl"
  note e = rest_order_effect[OF r]
  have sl: "slot_of ?pl' y = slot_of ?pl y" for y by (simp add: slot_of_def e(3))
  have vl: "is_valid_price ?pl' y = is_valid_price ?pl y" for y by (simp add: is_valid_price_def e(3))
  have new: "nonempty_at ?pl' ?px"
    using e(1) by (simp add: nonempty_at_def vl level_of_slot sl e(4) level_empty_def)
  have keep: "nonempty_at ?pl y \<Longrightarrow> nonempty_at ?pl' y" for y
    by (simp add: nonempty_at_def vl level_of_slot sl e(4) level_empty_def)
  have old: "y = ?px \<or> nonempty_at ?pl y" if "nonempty_at ?pl' y" for y
  proof (cases "slot_of ?pl y = slot_of ?pl ?px")
    case True
    from that have "is_valid_price ?pl y" by (simp add: nonempty_at_def vl)
    from slot_of_inj[OF this e(1) True] show ?thesis by simp
  next
    case False
    with that show ?thesis by (simp add: nonempty_at_def vl level_of_slot sl e(4))
  qed
  show ?thesis
  proof (cases "improves sd ?px ?c")
    case True
    with e(5) have b: "best sd ?pl' = ?px" by simp
    have "\<not> improves sd y ?px" if "nonempty_at ?pl' y" for y
    proof -
      from old[OF that] show ?thesis
      proof
        assume "y = ?px" then show ?thesis by simp
      next
        assume "nonempty_at ?pl y"
        with ex have "\<not> improves sd y ?c" by (simp add: best_exact_def)
        from improves_trans_not[OF True this] show ?thesis .
      qed
    qed
    with new improves_sentinel[OF fits e(1), of sd] show ?thesis
      by (simp add: best_exact_def b)
  next
    case False
    with e(5) have b: "best sd ?pl' = ?c" by simp
    from False improves_sentinel[OF fits e(1), of sd] have nz: "?c \<noteq> sentinel sd" by auto
    with ex have "nonempty_at ?pl ?c" by (simp add: best_exact_def)
    from keep[OF this] have 1: "nonempty_at ?pl' ?c" .
    have "\<not> improves sd y ?c" if "nonempty_at ?pl' y" for y
      using old[OF that] False ex by (auto simp: best_exact_def)
    with 1 nz show ?thesis by (simp add: best_exact_def b)
  qed
qed

subsection \<open>New orders keep both cached bests exact\<close>

definition exact_book :: "book \<Rightarrow> bool" where
  "exact_book b = (\<forall>sd. best_exact sd (ladder sd b) \<and> band_fits (band (ladder sd b)))"

lemma exact_side_step:
  assumes "exact_book b" "ladder (opposite sd) b' = ladder (opposite sd) b"
    "best_exact sd (ladder sd b')" "band (ladder sd b') = band (ladder sd b)"
  shows "exact_book b'"
  unfolding exact_book_def
proof
  fix s
  show "best_exact s (ladder s b') \<and> band_fits (band (ladder s b'))"
  proof (cases "s = sd")
    case True
    with assms(1,3,4) show ?thesis by (simp add: exact_book_def)
  next
    case False
    then have "s = opposite sd" by (cases s; cases sd) (simp_all add: opposite_def)
    with assms(1,2) show ?thesis by (simp add: exact_book_def)
  qed
qed

lemma exact_ladders: "\<forall>sd. ladder sd b' = ladder sd b \<Longrightarrow> exact_book b' = exact_book b"
  by (simp add: exact_book_def)

lemma finish_exact: "finish r b = Done r' b' \<Longrightarrow> exact_book b \<Longrightarrow> exact_book b'"
  using finish_ladder[of r b r' b'] exact_ladders[of b' b] by simp

lemma match_against_side_exact_book:
  assumes m: "match_against_side sd qty lim taker tu ts stp b = Done f b'" and ex: "exact_book b"
  shows "exact_book b'"
proof -
  from ex have 1: "best_exact sd (ladder sd b)" "band_fits (band (ladder sd b))"
    by (simp_all add: exact_book_def)
  from match_against_side_rel[OF m] have opp: "ladder (opposite sd) b' = ladder (opposite sd) b"
    by (simp add: loop_rel_def)
  from match_against_side_exact[OF m 1] exact_side_step[OF ex opp] show ?thesis by simp
qed

lemma match_opposite_exact:
  assumes "match_opposite sd cmd b = Done f b'" "exact_book b"
  shows "exact_book b'"
proof (cases "match_opposite sd cmd b = Done 0 b")
  case True
  with assms show ?thesis by simp
next
  case False
  with assms(1) have "match_against_side (opposite sd) (cmd_qty cmd) (price_ticks cmd)
                (order_id cmd) (user_id cmd) (recv_ts cmd) (cmd_flags cmd AND STP \<noteq> 0) b = Done f b'"
    by (simp add: match_opposite_def Let_def split: if_splits)
  from match_against_side_exact_book[OF this assms(2)] show ?thesis .
qed

lemma rest_order_exact_book:
  assumes r: "rest_order sd cmd f q b = Done res b'" and ex: "exact_book b"
  shows "exact_book b'"
proof -
  from ex have 1: "best_exact sd (ladder sd b)" "band_fits (band (ladder sd b))"
    by (simp_all add: exact_book_def)
  note e = rest_order_effect[OF r]
  from exact_side_step[OF ex e(2) rest_order_exact[OF r 1] e(3)] show ?thesis .
qed

lemma submit_limit_side_exact:
  assumes s: "submit_limit_side sd cmd b = Done res b'" and ex: "exact_book b"
  shows "exact_book b'"
proof -
  from submit_limit_side_cases[OF s] consider
    "finish (ExecResult 0 0) b = Done res b'"
    | fq b1 where "match_opposite sd cmd b = Done fq b1"
        "rest_order sd cmd fq (cmd_qty cmd - fq) b1 = Done res b'"
    | fq b1 r where "match_opposite sd cmd b = Done fq b1" "finish (ExecResult fq r) b1 = Done res b'"
    by (auto split: if_splits)
  then show ?thesis
  proof cases
    case 1
    from finish_exact[OF this ex] show ?thesis .
  next
    case 2
    from rest_order_exact_book[OF 2(2) match_opposite_exact[OF 2(1) ex]] show ?thesis .
  next
    case 3
    from finish_exact[OF 3(2) match_opposite_exact[OF 3(1) ex]] show ?thesis .
  qed
qed

lemma submit_limit_exact:
  "submit_limit cmd b = Done res b' \<Longrightarrow> exact_book b \<Longrightarrow> exact_book b'"
  by (auto simp: submit_limit_def split: if_splits dest: submit_limit_side_exact)

lemma submit_market_exact:
  assumes s: "submit_market cmd b = Done res b'" and ex: "exact_book b"
  shows "exact_book b'"
proof -
  from submit_market_cases[OF s] obtain fq b1 where
    m: "match_against_side (opposite (cmd_side cmd)) (cmd_qty cmd)
            (sentinel (opposite (cmd_side cmd))) (order_id cmd) (user_id cmd)
            (recv_ts cmd) (cmd_flags cmd AND STP \<noteq> 0) b = Done fq b1"
    and fin: "finish (ExecResult fq (cmd_qty cmd - fq)) b1 = Done res b'"
    by auto
  from finish_exact[OF fin match_against_side_exact_book[OF m ex]] show ?thesis .
qed

lemma process_new_exact:
  assumes p: "process cmd b = Done u b'" and ex: "exact_book b" and n: "cmd_type cmd = NewOrder"
  shows "exact_book b'"
proof (cases "order_type cmd = Limit")
  case True
  with p n obtain r where "submit_limit cmd b = Done r b'"
    by (auto simp: process_def split: outcome.splits)
  from submit_limit_exact[OF this ex] show ?thesis .
next
  case False
  with p n obtain r where "submit_market cmd b = Done r b'"
    by (auto simp: process_def split: outcome.splits)
  from submit_market_exact[OF this ex] show ?thesis .
qed

lemma run_new_exact:
  "run cmds b = Done u b' \<Longrightarrow> exact_book b \<Longrightarrow> \<forall>cmd \<in> set cmds. cmd_type cmd = NewOrder \<Longrightarrow>
   exact_book b'"
proof (induction cmds arbitrary: b)
  case Nil
  then show ?case by simp
next
  case (Cons cmd cmds)
  from Cons.prems(1) obtain b1 where p: "process cmd b = Done () b1" and r: "run cmds b1 = Done u b'"
    by (auto split: outcome.splits)
  from process_new_exact[OF p Cons.prems(2)] Cons.prems(3) have "exact_book b1" by simp
  from Cons.IH[OF r this] Cons.prems(3) show ?case by simp
qed

lemma exact_new_book: "band_fits bd \<Longrightarrow> exact_book (new_book symbol bd clk)"
  by (auto simp: exact_book_def best_exact_def nonempty_at_def new_book_def ladder_def
      PriceLevelsArray_def best_def sentinel_def empty_level_def level_empty_def level_of_def
      split: side.splits)

text \<open>
  Where no order is cancelled: on a band that lies strictly between the two sentinels and
  spans at most \<^verbatim>\<open>MAX_SEARCH\<close> = 10000 ticks, after every sequence of \<^verbatim>\<open>NewOrder\<close> commands
  that the engine completes on a fresh book, the cached \<open>best_bid\<close> is the highest tick
  holding a resting bid and the cached \<open>best_ask\<close> the lowest tick holding a resting ask;
  a cached best is the sentinel exactly when no tick of that side holds an order.
\<close>

lemma best_exact_new_orders:
  assumes "\<forall>cmd \<in> set cmds. cmd_type cmd = NewOrder"
    and "EMPTY_BID < min_tick bd" and "max_tick bd < EMPTY_ASK"
    and "max_tick bd - min_tick bd \<le> MAX_SEARCH"
    and "run cmds (new_book symbol bd clk) = Done u b"
  shows "best_exact Bid (bids b) \<and> best_exact Ask (asks b)"
proof -
  from assms(2-4) have "band_fits bd" by (simp add: band_fits_def)
  from run_new_exact[OF assms(5) exact_new_book[OF this] assms(1)]
  have "best_exact Bid (ladder Bid b)" "best_exact Ask (ladder Ask b)"
    by (simp_all add: exact_book_def)
  then show ?thesis by (simp add: ladder_def)
qed

lemma best_exact_new_orders_example:
  "\<exists>b. run [limit_order 1 7 Bid 150 10 GTC 0, limit_order 2 7 Bid 140 10 GTC 0,
            limit_order 3 8 Ask 150 10 IOC 0]
          (new_book 1 band_100_200 (\<lambda>_. 0)) = Done () b \<and>
       pl_best_bid (bids b) = 140 \<and> pl_best_ask (asks b) = EMPTY_ASK \<and>
       best_exact Bid (bids b) \<and> best_exact Ask (asks b)"
proof -
  let ?cmds = "[limit_order 1 7 Bid 150 10 GTC 0, limit_order 2 7 Bid 140 10 GTC 0,
            limit_order 3 8 Ask 150 10 IOC 0]"
  have n: "\<forall>cmd \<in> set ?cmds. cmd_type cmd = NewOrder" by (simp add: limit_order_def)
  have bd: "EMPTY_BID < min_tick band_100_200" "max_tick band_100_200 < EMPTY_ASK"
    "max_tick band_100_200 - min_tick band_100_200 \<le> MAX_SEARCH"
    by (simp_all add: band_100_200_def EMPTY_BID_def EMPTY_ASK_def MAX_SEARCH_def)
  have "\<exists>b. run ?cmds (new_book 1 band_100_200 (\<lambda>_. 0)) = Done () b \<and>
       pl_best_bid (bids b) = 140 \<and> pl_best_ask (asks b) = EMPTY_ASK"
    by (simp add: eval_defs limit_order_def band_100_200_def match_level.simps)
  then obtain b where b: "run ?cmds (new_book 1 band_100_200 (\<lambda>_. 0)) = Done () b"
    "pl_best_bid (bids b) = 140" "pl_best_ask (asks b) = EMPTY_ASK" by blast
  from best_exact_new_orders[OF n bd b(1)] b show ?thesis by blast
qed

text \<open>
  C8. The claim fails on the code. Bids rest at ticks 150 (order 1) and 140 (order 2).
  Cancelling order 2 empties the level at 140, so \<^verbatim>\<open>cancel\<close> calls
  \<^verbatim>\<open>refresh_best_after_depletion\<close> although the emptied level is not the cached best. The
  search starts one tick below the cached best 150, finds no order down to the end of the
  band and sets \<open>best_bid\<close> to the sentinel: the bid side is reported empty while order 1
  still rests at 150 with its 10 lots, and the book update of the cancel publishes
  \<open>best_bid = EMPTY_BID\<close> with quantity 0.
\<close>

theorem C8_cancel_abandons_best:
  "\<exists>b. run [limit_order 1 7 Bid 150 10 GTC 0, limit_order 2 7 Bid 140 10 GTC 0, cancel_order 2]
          (new_book 1 band_100_200 (\<lambda>_. 0)) = Done () b \<and>
       pl_best_bid (bids b) = EMPTY_BID \<and>
       nodes (level_of (bids b) 150) =
         [\<lparr>n_id = 1, n_user = 7, n_qty = 10, n_ts = 0, n_flags = 0, n_addr = 1\<rparr>] \<and>
       last (out b) = Update \<lparr>u_ts = 0, u_symbol = 1, u_best_bid = EMPTY_BID,
                                u_best_ask = EMPTY_ASK, bid_qty = 0, ask_qty = 0\<rparr>"
  by (simp add: eval_defs limit_order_def cancel_order_def band_100_200_def level_of_def
      match_level.simps)

section \<open>Fill conservation\<close>

text \<open>The quantity of all trade events of an output stream.\<close>

definition trade_volume :: "any_event list \<Rightarrow> int" where
  "trade_volume evs = sum_list (map (\<lambda>e. case e of Trade t \<Rightarrow> t_qty t | Update u \<Rightarrow> 0) evs)"

text \<open>The open quantity of all nodes resting on a side, and in the book.\<close>

definition top_slot :: "price_levels \<Rightarrow> nat" where
  "top_slot pl = nat (max_tick (band pl) - min_tick (band pl))"

definition side_open :: "price_levels \<Rightarrow> int" where
  "side_open pl = (\<Sum>i\<le>top_slot pl. level_resting (levels pl i))"

definition resting_total :: "book \<Rightarrow> int" where
  "resting_total b = side_open (bids b) + side_open (asks b)"

text \<open>
  The nodes of a level have distinct addresses below the next address of the pool and
  positive open quantities; only slots of the band hold nodes.
\<close>

definition level_wf :: "nat \<Rightarrow> level_fifo \<Rightarrow> bool" where
  "level_wf a lv =
     (distinct (map n_addr (nodes lv)) \<and> (\<forall>n \<in> set (nodes lv). 0 < n_qty n \<and> n_addr n < a))"

definition side_wf :: "nat \<Rightarrow> price_levels \<Rightarrow> bool" where
  "side_wf a pl = (\<forall>i. level_wf a (levels pl i) \<and> (top_slot pl < i \<longrightarrow> nodes (levels pl i) = []))"

definition book_wf :: "book \<Rightarrow> bool" where
  "book_wf b = (on_trade_set b \<and> (\<forall>sd. side_wf (next_addr b) (ladder sd b)))"

definition account :: "book \<Rightarrow> int" where
  "account b = 2 * trade_volume (out b) + resting_total b"

subsection \<open>Lists of nodes\<close>

lemma filter_other_addr:
  "a \<notin> n_addr ` set xs \<Longrightarrow> filter (\<lambda>x. n_addr x \<noteq> a) xs = xs"
  by (induction xs) auto

lemma map_other_addr:
  "a \<notin> n_addr ` set xs \<Longrightarrow> map (\<lambda>x. if n_addr x = a then g x else x) xs = xs"
  by (induction xs) auto

lemma sum_filter_addr:
  "distinct (map n_addr xs) \<Longrightarrow> m \<in> set xs \<Longrightarrow>
   sum_list (map n_qty (filter (\<lambda>x. n_addr x \<noteq> n_addr m) xs)) = sum_list (map n_qty xs) - n_qty m"
proof (induction xs)
  case Nil
  then show ?case by simp
next
  case (Cons x xs)
  show ?case
  proof (cases "x = m")
    case True
    with Cons.prems have "n_addr m \<notin> n_addr ` set xs" by auto
    from filter_other_addr[OF this] True show ?thesis by simp
  next
    case False
    with Cons.prems have m: "m \<in> set xs" by simp
    with Cons.prems have "n_addr x \<noteq> n_addr m" by auto
    with Cons.IH m Cons.prems show ?thesis by simp
  qed
qed

lemma sum_map_addr:
  "distinct (map n_addr xs) \<Longrightarrow> m \<in> set xs \<Longrightarrow>
   sum_list (map n_qty (map (\<lambda>x. if n_addr x = n_addr m then x\<lparr>n_qty := n_qty x - r\<rparr> else x) xs))
   = sum_list (map n_qty xs) - r"
proof (induction xs)
  case Nil
  then show ?case by simp
next
  case (Cons x xs)
  show ?case
  proof (cases "x = m")
    case True
    with Cons.prems have "n_addr m \<notin> n_addr ` set xs" by auto
    from map_other_addr[OF this] True show ?thesis by simp
  next
    case False
    with Cons.prems have m: "m \<in> set xs" by simp
    with Cons.prems have "n_addr x \<noteq> n_addr m" by auto
    with Cons.IH m Cons.prems show ?thesis by simp
  qed
qed

subsection \<open>Levels\<close>

lemma level_resting_erase:
  "level_wf a lv \<Longrightarrow> m \<in> set (nodes lv) \<Longrightarrow>
   level_resting (level_erase lv m) = level_resting lv - n_qty m"
  by (simp add: level_wf_def level_resting_def level_erase_def sum_filter_addr)

lemma level_resting_reduce:
  "level_wf a lv \<Longrightarrow> m \<in> set (nodes lv) \<Longrightarrow>
   level_resting (reduce_qty lv m r) = level_resting lv - r"
  using sum_map_addr[of "nodes lv" m r]
  by (simp add: level_wf_def level_resting_def reduce_qty_def)

lemma level_resting_enqueue: "level_resting (enqueue lv n) = level_resting lv + n_qty n"
  by (simp add: level_resting_def)

lemma level_wf_erase: "level_wf a lv \<Longrightarrow> level_wf a (level_erase lv m)"
  by (auto simp: level_wf_def level_erase_def distinct_map_filter)

lemma level_wf_reduce:
  assumes "level_wf a lv" "m \<in> set (nodes lv)" "r < n_qty m"
  shows "level_wf a (reduce_qty lv m r)"
  unfolding level_wf_def
proof (intro conjI ballI)
  from assms(1) show "distinct (map n_addr (nodes (reduce_qty lv m r)))"
    by (simp add: level_wf_def)
next
  fix n assume "n \<in> set (nodes (reduce_qty lv m r))"
  then obtain x where x: "x \<in> set (nodes lv)"
    "n = (if n_addr x = n_addr m then x\<lparr>n_qty := n_qty x - r\<rparr> else x)"
    by (auto simp: reduce_qty_def)
  have "0 < n_qty n \<and> n_addr n < a"
  proof (cases "n_addr x = n_addr m")
    case True
    from assms(1) have "distinct (map n_addr (nodes lv))" by (simp add: level_wf_def)
    from same_addr_same_node[OF this x(1) assms(2) True] have "x = m" .
    with x(2) assms show ?thesis by (simp add: level_wf_def)
  next
    case False
    with x assms(1) show ?thesis by (simp add: level_wf_def)
  qed
  then show "0 < n_qty n" "n_addr n < a" by simp_all
qed

lemma level_wf_enqueue:
  "level_wf a lv \<Longrightarrow> 0 < n_qty n \<Longrightarrow> n_addr n = a \<Longrightarrow> level_wf (a + 1) (enqueue lv n)"
  by (auto simp: level_wf_def)

lemma level_wf_mono: "level_wf a lv \<Longrightarrow> a \<le> a' \<Longrightarrow> level_wf a' lv"
  by (auto simp: level_wf_def)

lemma side_wf_mono: "side_wf a pl \<Longrightarrow> a \<le> a' \<Longrightarrow> side_wf a' pl"
  by (auto simp: side_wf_def intro: level_wf_mono)

subsection \<open>Sides\<close>

lemma side_open_upd:
  assumes "band pl' = band pl" "\<forall>j. j \<noteq> i \<longrightarrow> levels pl' j = levels pl j" "i \<le> top_slot pl"
  shows "side_open pl' = side_open pl - level_resting (levels pl i) + level_resting (levels pl' i)"
proof -
  let ?S = "{..top_slot pl}"
  have t: "top_slot pl' = top_slot pl" by (simp add: top_slot_def assms(1))
  have i: "i \<in> ?S" "finite ?S" using assms(3) by simp_all
  have "(\<Sum>j\<in>?S - {i}. level_resting (levels pl' j)) = (\<Sum>j\<in>?S - {i}. level_resting (levels pl j))"
    by (rule sum.cong) (simp_all add: assms(2))
  with sum.remove[OF i(2,1), of "\<lambda>j. level_resting (levels pl' j)"]
       sum.remove[OF i(2,1), of "\<lambda>j. level_resting (levels pl j)"]
  show ?thesis by (simp add: side_open_def t)
qed

lemma side_open_same:
  "band pl' = band pl \<Longrightarrow> levels pl' = levels pl \<Longrightarrow> side_open pl' = side_open pl"
  by (simp add: side_open_def top_slot_def)

lemma side_wf_same:
  "band pl' = band pl \<Longrightarrow> levels pl' = levels pl \<Longrightarrow> side_wf a pl' = side_wf a pl"
  by (simp add: side_wf_def top_slot_def)

lemma side_wf_upd:
  assumes "side_wf a pl" "band pl' = band pl" "\<forall>j. j \<noteq> i \<longrightarrow> levels pl' j = levels pl j"
    "level_wf a (levels pl' i)" "i \<le> top_slot pl"
  shows "side_wf a pl'"
  unfolding side_wf_def
proof
  fix j
  have t: "top_slot pl' = top_slot pl" by (simp add: top_slot_def assms(2))
  show "level_wf a (levels pl' j) \<and> (top_slot pl' < j \<longrightarrow> nodes (levels pl' j) = [])"
  proof (cases "j = i")
    case True
    with assms(4,5) t show ?thesis by simp
  next
    case False
    with assms(1,3) t show ?thesis by (simp add: side_wf_def)
  qed
qed

lemma trade_volume_simps [simp]:
  "trade_volume [] = 0"
  "trade_volume (xs @ ys) = trade_volume xs + trade_volume ys"
  "trade_volume [Trade t] = t_qty t"
  "trade_volume [Update u] = 0"
  by (simp_all add: trade_volume_def)

subsection \<open>The inner loop\<close>

lemma out_traded:
  "on_trade_set b \<Longrightarrow>
   trade_volume (out (traded ts taker bp maker qty b)) = trade_volume (out b) + min qty (n_qty maker)"
  by (simp add: traded_def emit_trade_def)

lemma on_trade_traded [simp]: "on_trade_set (traded ts taker bp maker qty b) = on_trade_set b"
  by (simp add: traded_def emit_trade_def)

lemma on_trade_simps [simp]:
  "on_trade_set (upd_level sd i f b) = on_trade_set b"
  "on_trade_set (set_ladder sd pl b) = on_trade_set b"
  by (simp_all add: upd_level_def set_ladder_def split: side.splits)

text \<open>
  What the walk over a level fills is the quantity of the trades it emits and the
  quantity the level loses.
\<close>

lemma match_level_account:
  assumes "match_level sd i bp taker tu ts stp makers qty tf b = Done r b'"
    and "on_trade_set b"
    and "level_wf a (levels (ladder sd b) i)"
    and "set makers \<subseteq> set (nodes (levels (ladder sd b) i))"
    and "distinct (map n_addr makers)"
  shows "trade_volume (out b') = trade_volume (out b) + (snd r - tf) \<and>
         level_resting (levels (ladder sd b') i) = level_resting (levels (ladder sd b) i) - (snd r - tf) \<and>
         level_wf a (levels (ladder sd b') i) \<and> tf \<le> snd r \<and> (0 \<le> qty \<longrightarrow> 0 \<le> fst r)"
  using assms
proof (induction makers arbitrary: qty tf b)
  case Nil
  then show ?case by (auto simp: match_level_Nil)
next
  case (Cons maker rest)
  let ?lv = "levels (ladder sd b) i"
  from Cons.prems(4) have mk: "maker \<in> set (nodes ?lv)" by simp
  from Cons.prems(3) mk have pos: "0 < n_qty maker" by (simp add: level_wf_def)
  consider "\<not> qty > 0" | "qty > 0" "stp \<and> n_user maker = tu"
    | "qty > 0" "\<not> (stp \<and> n_user maker = tu)" "qty \<ge> n_qty maker"
    | "qty > 0" "\<not> (stp \<and> n_user maker = tu)" "qty < n_qty maker"
    by linarith
  then show ?case
  proof cases
    case 1
    with Cons.prems show ?thesis by (auto simp: match_level_no_qty)
  next
    case 2
    with Cons.prems(1) have
      "match_level sd i bp taker tu ts stp rest qty tf b = Done r b'"
      by (simp only: match_level_skip)
    from Cons.IH[OF this Cons.prems(2,3)] Cons.prems(4,5) show ?thesis by simp
  next
    case 3
    let ?b1 = "traded ts taker bp maker qty b"
    from 3 Cons.prems(1) obtain ix where
      rec: "match_level sd i bp taker tu ts stp rest (qty - n_qty maker) (tf + n_qty maker)
          ((upd_level sd i (\<lambda>lv. level_erase lv maker) ?b1)\<lparr>id_index := ix\<rparr>) = Done r b'"
      by (auto simp: match_level_full split: option.splits)
    let ?b2 = "(upd_level sd i (\<lambda>lv. level_erase lv maker) ?b1)\<lparr>id_index := ix\<rparr>"
    have l2: "levels (ladder sd ?b2) i = level_erase ?lv maker" by simp
    have o2: "on_trade_set ?b2" using Cons.prems(2) by simp
    have w2: "level_wf a (levels (ladder sd ?b2) i)"
      unfolding l2 by (rule level_wf_erase[OF Cons.prems(3)])
    have s2: "set rest \<subseteq> set (nodes (levels (ladder sd ?b2) i))"
      unfolding l2
    proof
      fix x assume x: "x \<in> set rest"
      then have "n_addr x \<in> n_addr ` set rest" by (rule imageI)
      with Cons.prems(5) have "n_addr x \<noteq> n_addr maker" by auto
      with x Cons.prems(4) show "x \<in> set (nodes (level_erase ?lv maker))"
        by (auto simp: level_erase_def)
    qed
    have d2: "distinct (map n_addr rest)" using Cons.prems(5) by simp
    have t2: "trade_volume (out ?b2) = trade_volume (out b) + n_qty maker"
      using out_traded[OF Cons.prems(2), of ts taker bp maker qty] 3(3) by (simp add: min_def)
    have r2: "level_resting (levels (ladder sd ?b2) i) = level_resting ?lv - n_qty maker"
      unfolding l2 by (rule level_resting_erase[OF Cons.prems(3) mk])
    from Cons.IH[OF rec o2 w2 s2 d2] t2 r2 pos 3 show ?thesis by auto
  next
    case 4
    let ?b1 = "traded ts taker bp maker qty b"
    let ?b2 = "upd_level sd i (\<lambda>lv. reduce_qty lv maker qty) ?b1"
    from 4 Cons.prems(1) have r: "r = (0, tf + qty)" and b': "b' = ?b2"
      by (auto simp: match_level_partial)
    have l2: "levels (ladder sd ?b2) i = reduce_qty ?lv maker qty" by simp
    have t2: "trade_volume (out ?b2) = trade_volume (out b) + qty"
      using out_traded[OF Cons.prems(2), of ts taker bp maker qty] 4(3) by (simp add: min_def)
    have r2: "level_resting (levels (ladder sd ?b2) i) = level_resting ?lv - qty"
      unfolding l2 by (rule level_resting_reduce[OF Cons.prems(3) mk])
    have w2: "level_wf a (levels (ladder sd ?b2) i)"
      unfolding l2 by (rule level_wf_reduce[OF Cons.prems(3) mk 4(3)])
    from t2 r2 w2 4(1) show ?thesis unfolding r b' by simp
  qed
qed

subsection \<open>Matching against a side\<close>

text \<open>One walk over the best level, seen from the side.\<close>

lemma level_step:
  assumes I: "on_trade_set x \<and> side_wf a (ladder sd x) \<and>
             trade_volume (out x) = tv + t \<and> side_open (ladder sd x) = so - t \<and>
             0 \<le> t \<and> q + t = qty \<and> (0 \<le> qty \<longrightarrow> 0 \<le> q)"
    and ns: "\<not> stops sd lim q x"
    and ml: "match_level sd (cur_slot sd x) (best sd (ladder sd x)) taker tu ts stp
          (nodes (levels (ladder sd x) (cur_slot sd x))) q t x = Done r b1"
  shows "on_trade_set b1 \<and> side_wf a (ladder sd b1) \<and>
         trade_volume (out b1) = tv + snd r \<and> side_open (ladder sd b1) = so - snd r \<and>
         0 \<le> snd r \<and> fst r + snd r = qty \<and> (0 \<le> qty \<longrightarrow> 0 \<le> fst r)"
proof -
  let ?i = "cur_slot sd x"
  let ?lv = "levels (ladder sd x) ?i"
  from I have wf: "side_wf a (ladder sd x)" and ot: "on_trade_set x" by simp_all
  from wf have lw: "level_wf a ?lv" by (simp add: side_wf_def)
  then have d: "distinct (map n_addr (nodes ?lv))" by (simp add: level_wf_def)
  from ns have "\<not> level_empty ?lv" by (simp add: stops_def)
  with wf have top: "?i \<le> top_slot (ladder sd x)"
    by (auto simp: side_wf_def level_empty_def dest!: spec[of _ ?i])
  from ns have qp: "0 < q" by (simp add: stops_def)
  from match_level_account[OF ml ot lw subset_refl d] have
    a: "trade_volume (out b1) = trade_volume (out x) + (snd r - t)"
    "level_resting (levels (ladder sd b1) ?i) = level_resting ?lv - (snd r - t)"
    "level_wf a (levels (ladder sd b1) ?i)" "t \<le> snd r" "0 \<le> fst r"
    using qp by simp_all
  from match_level_rel[OF ml] have
    st: "static b1 = static x"
    and bd: "band (ladder sd b1) = band (ladder sd x)"
    and lv: "\<forall>j. j \<noteq> ?i \<longrightarrow> levels (ladder sd b1) j = levels (ladder sd x) j"
    by (simp_all add: match_rel_def)
  from st ot have 1: "on_trade_set b1" by (simp add: static_def)
  from side_wf_upd[OF wf bd lv a(3) top] have 2: "side_wf a (ladder sd b1)" .
  from side_open_upd[OF bd lv top] a(2) have
    3: "side_open (ladder sd b1) = side_open (ladder sd x) - (snd r - t)" by simp
  from match_level_sum[OF ml] have 4: "fst r + snd r = q + t" .
  from 1 2 3 4 a I show ?thesis by simp
qed

lemma match_against_side_account:
  assumes m: "match_against_side sd qty lim taker tu ts stp b = Done f b'"
    and ot: "on_trade_set b"
    and wf: "side_wf a (ladder sd b)"
  shows "trade_volume (out b') = trade_volume (out b) + f \<and>
         side_open (ladder sd b') = side_open (ladder sd b) - f \<and>
         side_wf a (ladder sd b') \<and> 0 \<le> f \<and> (0 \<le> qty \<longrightarrow> f \<le> qty)"
  using m[unfolded match_against_side_def]
proof (rule match_loop_rule[where
      I = "\<lambda>q t x. on_trade_set x \<and> side_wf a (ladder sd x) \<and>
             trade_volume (out x) = trade_volume (out b) + t \<and>
             side_open (ladder sd x) = side_open (ladder sd b) - t \<and>
             0 \<le> t \<and> q + t = qty \<and> (0 \<le> qty \<longrightarrow> 0 \<le> q)"
      and Q = "\<lambda>t x. trade_volume (out x) = trade_volume (out b) + t \<and>
             side_open (ladder sd x) = side_open (ladder sd b) - t \<and>
             side_wf a (ladder sd x) \<and> 0 \<le> t \<and> (0 \<le> qty \<longrightarrow> t \<le> qty)"])
  show "on_trade_set b \<and> side_wf a (ladder sd b) \<and>
        trade_volume (out b) = trade_volume (out b) + 0 \<and>
        side_open (ladder sd b) = side_open (ladder sd b) - 0 \<and> (0::int) \<le> 0 \<and> qty + 0 = qty \<and>
        (0 \<le> qty \<longrightarrow> 0 \<le> qty)"
    using ot wf by simp
next
  fix q t x
  assume "on_trade_set x \<and> side_wf a (ladder sd x) \<and>
             trade_volume (out x) = trade_volume (out b) + t \<and>
             side_open (ladder sd x) = side_open (ladder sd b) - t \<and>
             0 \<le> t \<and> q + t = qty \<and> (0 \<le> qty \<longrightarrow> 0 \<le> q)"
  then show "trade_volume (out x) = trade_volume (out b) + t \<and>
             side_open (ladder sd x) = side_open (ladder sd b) - t \<and>
             side_wf a (ladder sd x) \<and> 0 \<le> t \<and> (0 \<le> qty \<longrightarrow> t \<le> qty)"
    by auto
next
  fix q t x r b1
  assume I: "on_trade_set x \<and> side_wf a (ladder sd x) \<and>
             trade_volume (out x) = trade_volume (out b) + t \<and>
             side_open (ladder sd x) = side_open (ladder sd b) - t \<and>
             0 \<le> t \<and> q + t = qty \<and> (0 \<le> qty \<longrightarrow> 0 \<le> q)"
    and ns: "\<not> stops sd lim q x"
    and ml: "match_level sd (cur_slot sd x) (best sd (ladder sd x)) taker tu ts stp
          (nodes (levels (ladder sd x) (cur_slot sd x))) q t x = Done r b1"
  from level_step[OF I ns ml]
  show "trade_volume (out b1) = trade_volume (out b) + snd r \<and>
             side_open (ladder sd b1) = side_open (ladder sd b) - snd r \<and>
             side_wf a (ladder sd b1) \<and> 0 \<le> snd r \<and> (0 \<le> qty \<longrightarrow> snd r \<le> qty)"
    by auto
next
  fix q t x r b1 b2
  assume I: "on_trade_set x \<and> side_wf a (ladder sd x) \<and>
             trade_volume (out x) = trade_volume (out b) + t \<and>
             side_open (ladder sd x) = side_open (ladder sd b) - t \<and>
             0 \<le> t \<and> q + t = qty \<and> (0 \<le> qty \<longrightarrow> 0 \<le> q)"
    and ns: "\<not> stops sd lim q x"
    and ml: "match_level sd (cur_slot sd x) (best sd (ladder sd x)) taker tu ts stp
          (nodes (levels (ladder sd x) (cur_slot sd x))) q t x = Done r b1"
    and rf: "refresh_best_after_depletion sd b1 = Done () b2"
  note f = refresh_frame[OF rf]
  from f(1) have "on_trade_set b2 = on_trade_set b1" by (simp add: static_def)
  with level_step[OF I ns ml] f(2) side_open_same[OF f(6) f(5)] side_wf_same[OF f(6) f(5), of a]
  show "on_trade_set b2 \<and> side_wf a (ladder sd b2) \<and>
             trade_volume (out b2) = trade_volume (out b) + snd r \<and>
             side_open (ladder sd b2) = side_open (ladder sd b) - snd r \<and>
             0 \<le> snd r \<and> fst r + snd r = qty \<and> (0 \<le> qty \<longrightarrow> 0 \<le> fst r)"
    by simp
qed

subsection \<open>The commands\<close>

lemma finish_out:
  assumes "finish r b = Done r' b'"
  shows "trade_volume (out b') = trade_volume (out b)" "on_trade_set b' = on_trade_set b"
proof -
  from assms obtain e: "emit_book_update b = Some b'"
    by (auto simp: finish_def split: option.splits)
  have "trade_volume (out b') = trade_volume (out b) \<and> on_trade_set b' = on_trade_set b"
  proof (cases "on_book_update_set b")
    case True
    from emit_book_update_Some[OF e True] show ?thesis by auto
  next
    case False
    with e show ?thesis by (simp add: emit_book_update_def)
  qed
  then show "trade_volume (out b') = trade_volume (out b)" "on_trade_set b' = on_trade_set b"
    by simp_all
qed

lemma rest_order_trades:
  assumes "rest_order sd cmd f r b = Done res b'"
  shows "trade_volume (out b') = trade_volume (out b)" "on_trade_set b' = on_trade_set b"
proof -
  from assms obtain i pl ix where
    fin: "finish (ExecResult f r)
            ((set_ladder sd pl
               (upd_level sd i (\<lambda>level. enqueue level
                   \<lparr>n_id = order_id cmd, n_user = user_id cmd, n_qty = r, n_ts = recv_ts cmd,
                    n_flags = cmd_flags cmd, n_addr = next_addr b\<rparr>)
                 (b\<lparr>next_addr := next_addr b + 1\<rparr>)))\<lparr>id_index := ix\<rparr>) = Done res b'"
    by (auto simp: rest_order_def Let_def split: option.splits if_splits)
  from finish_out[OF fin] show "trade_volume (out b') = trade_volume (out b)"
    "on_trade_set b' = on_trade_set b" by simp_all
qed

lemma resting_total_sides:
  "resting_total b = side_open (ladder sd b) + side_open (ladder (opposite sd) b)"
  by (cases sd) (simp_all add: resting_total_def ladder_def opposite_def)

lemma book_wf_sides:
  "book_wf b = (on_trade_set b \<and> side_wf (next_addr b) (ladder sd b) \<and>
                side_wf (next_addr b) (ladder (opposite sd) b))"
proof -
  have "(\<forall>s. P s) = (P sd \<and> P (opposite sd))" for P
  proof
    assume "\<forall>s. P s" then show "P sd \<and> P (opposite sd)" by simp
  next
    assume a: "P sd \<and> P (opposite sd)"
    show "\<forall>s. P s"
    proof
      fix s show "P s" using a by (cases s; cases sd) (simp_all add: opposite_def)
    qed
  qed
  then show ?thesis unfolding book_wf_def by simp
qed

lemma finish_account:
  assumes "finish r b = Done r' b'" "book_wf b"
  shows "book_wf b' \<and> account b' = account b"
proof -
  note l = finish_ladder[OF assms(1)]
  from l[of Bid] l[of Ask] have "bids b' = bids b" "asks b' = asks b" "next_addr b' = next_addr b"
    by (simp_all add: ladder_def)
  with finish_out[OF assms(1)] assms(2) show ?thesis
    by (simp add: book_wf_def account_def resting_total_def ladder_def split: side.splits)
qed

lemma match_side_account:
  assumes m: "match_against_side sd qty lim taker tu ts stp b = Done f b'" and wf: "book_wf b"
  shows "book_wf b' \<and> account b' = account b + f \<and> 0 \<le> f \<and> (0 \<le> qty \<longrightarrow> f \<le> qty)"
proof -
  from wf have ot: "on_trade_set b" and w: "side_wf (next_addr b) (ladder sd b)"
    and wo: "side_wf (next_addr b) (ladder (opposite sd) b)"
    by (simp_all add: book_wf_def)
  from match_against_side_rel[OF m] have st: "static b' = static b"
    and opp: "ladder (opposite sd) b' = ladder (opposite sd) b"
    by (simp_all add: loop_rel_def)
  from st have s: "on_trade_set b' = on_trade_set b" "next_addr b' = next_addr b"
    by (simp_all add: static_def)
  from match_against_side_account[OF m ot w] have a:
    "trade_volume (out b') = trade_volume (out b) + f"
    "side_open (ladder sd b') = side_open (ladder sd b) - f"
    "side_wf (next_addr b) (ladder sd b')" "0 \<le> f" "0 \<le> qty \<longrightarrow> f \<le> qty"
    by simp_all
  from a(3) wo ot s opp have "book_wf b'" by (simp add: book_wf_sides[of b' sd])
  moreover from a(1,2) opp have "account b' = account b + f"
    by (simp add: account_def resting_total_sides[of _ sd])
  ultimately show ?thesis using a(4,5) by simp
qed

lemma match_opposite_account:
  assumes m: "match_opposite sd cmd b = Done f b'" and wf: "book_wf b"
  shows "book_wf b' \<and> account b' = account b + f \<and> 0 \<le> f \<and> (0 \<le> cmd_qty cmd \<longrightarrow> f \<le> cmd_qty cmd)"
proof (cases "match_opposite sd cmd b = Done 0 b")
  case True
  with m wf show ?thesis by simp
next
  case False
  with m have "match_against_side (opposite sd) (cmd_qty cmd) (price_ticks cmd)
                (order_id cmd) (user_id cmd) (recv_ts cmd) (cmd_flags cmd AND STP \<noteq> 0) b = Done f b'"
    by (simp add: match_opposite_def Let_def split: if_splits)
  from match_side_account[OF this wf] show ?thesis .
qed

lemma slot_le_top: "is_valid_price pl px \<Longrightarrow> slot_of pl px \<le> top_slot pl"
  unfolding is_valid_price_def slot_of_def top_slot_def by (intro nat_mono) simp

lemma rest_order_account:
  assumes r: "rest_order sd cmd f q b = Done res b'" and wf: "book_wf b" and q: "0 < q"
  shows "book_wf b' \<and> account b' = account b + q"
proof -
  let ?pl = "ladder sd b" and ?pl' = "ladder sd b'"
  let ?i = "slot_of ?pl (price_ticks cmd)"
  let ?n = "node_of cmd q (next_addr b)"
  note e = rest_order_effect[OF r]
  note t = rest_order_trades[OF r]
  from wf have ot: "on_trade_set b" and w: "side_wf (next_addr b) ?pl"
    and wo: "side_wf (next_addr b) (ladder (opposite sd) b)"
    by (simp_all add: book_wf_sides[of b sd])
  have lv: "\<forall>j. j \<noteq> ?i \<longrightarrow> levels ?pl' j = levels ?pl j" by (simp add: e(4))
  have li: "levels ?pl' ?i = enqueue (levels ?pl ?i) ?n" by (simp add: e(4) level_of_slot)
  from slot_le_top[OF e(1)] have top: "?i \<le> top_slot ?pl" .
  from w have "level_wf (next_addr b) (levels ?pl ?i)" by (simp add: side_wf_def)
  from level_wf_enqueue[OF this, of ?n] q have lw: "level_wf (next_addr b + 1) (levels ?pl' ?i)"
    by (simp add: li node_of_def)
  from side_wf_mono[OF w, of "next_addr b + 1"] have w1: "side_wf (next_addr b + 1) ?pl" by simp
  from side_wf_mono[OF wo, of "next_addr b + 1"] have wo1: "side_wf (next_addr b + 1) (ladder (opposite sd) b)"
    by simp
  from side_wf_upd[OF w1 e(3) lv lw top] have w': "side_wf (next_addr b + 1) ?pl'" .
  from side_open_upd[OF e(3) lv top] have so: "side_open ?pl' = side_open ?pl + q"
    by (simp add: li level_resting_enqueue node_of_def)
  from w' wo1 ot t(2) e(2,6) have "book_wf b'" by (simp add: book_wf_sides[of b' sd])
  moreover from so t(1) e(2) have "account b' = account b + q"
    by (simp add: account_def resting_total_sides[of _ sd])
  ultimately show ?thesis by simp
qed

lemma submit_limit_side_account:
  assumes s: "submit_limit_side sd cmd b = Done res b'" and wf: "book_wf b"
    and t: "tif cmd \<noteq> IOC" "tif cmd \<noteq> FOK" and q: "0 \<le> cmd_qty cmd"
  shows "book_wf b' \<and> account b' = account b + cmd_qty cmd"
proof -
  from submit_limit_side_cases[OF s] t obtain fq b1 where
    mo: "match_opposite sd cmd b = Done fq b1"
    and rest: "if cmd_qty cmd - fq > 0
             then rest_order sd cmd fq (cmd_qty cmd - fq) b1 = Done res b'
             else finish (ExecResult fq (cmd_qty cmd - fq)) b1 = Done res b'"
    by (auto split: if_splits)
  from match_opposite_account[OF mo wf] q have
    a: "book_wf b1" "account b1 = account b + fq" "fq \<le> cmd_qty cmd" by simp_all
  show ?thesis
  proof (cases "cmd_qty cmd - fq > 0")
    case True
    with rest have "rest_order sd cmd fq (cmd_qty cmd - fq) b1 = Done res b'" by simp
    from rest_order_account[OF this a(1) True] a(2) show ?thesis by simp
  next
    case False
    with rest have "finish (ExecResult fq (cmd_qty cmd - fq)) b1 = Done res b'" by simp
    from finish_account[OF this a(1)] a(2,3) False show ?thesis by simp
  qed
qed

text \<open>A \<^verbatim>\<open>NewOrder\<close> for a limit order that rests what it does not fill.\<close>

definition resting_limit :: "order_command \<Rightarrow> bool" where
  "resting_limit cmd =
     (cmd_type cmd = NewOrder \<and> order_type cmd = Limit \<and> tif cmd \<noteq> IOC \<and> tif cmd \<noteq> FOK \<and>
      0 \<le> cmd_qty cmd)"

lemma process_account:
  assumes p: "process cmd b = Done u b'" and wf: "book_wf b" and c: "resting_limit cmd"
  shows "book_wf b' \<and> account b' = account b + cmd_qty cmd"
proof -
  from p c obtain r where "submit_limit cmd b = Done r b'"
    by (auto simp: process_def resting_limit_def split: outcome.splits)
  then have "submit_limit_side (cmd_side cmd) cmd b = Done r b'"
    by (cases "cmd_side cmd") (simp_all add: submit_limit_def)
  from submit_limit_side_account[OF this wf] c show ?thesis
    by (simp add: resting_limit_def)
qed

lemma run_account:
  "run cmds b = Done u b' \<Longrightarrow> book_wf b \<Longrightarrow> \<forall>cmd \<in> set cmds. resting_limit cmd \<Longrightarrow>
   book_wf b' \<and> account b' = account b + sum_list (map cmd_qty cmds)"
proof (induction cmds arbitrary: b)
  case Nil
  then show ?case by simp
next
  case (Cons cmd cmds)
  from Cons.prems(1) obtain b1 where p: "process cmd b = Done () b1" and r: "run cmds b1 = Done u b'"
    by (auto split: outcome.splits)
  from process_account[OF p Cons.prems(2)] Cons.prems(3) have
    1: "book_wf b1" "account b1 = account b + cmd_qty cmd" by simp_all
  from Cons.IH[OF r 1(1)] Cons.prems(3) 1(2) show ?case by simp
qed

lemma new_book_account: "book_wf (new_book symbol bd clk) \<and> account (new_book symbol bd clk) = 0"
  by (simp add: book_wf_def side_wf_def level_wf_def account_def resting_total_def side_open_def
      level_resting_def new_book_def ladder_def PriceLevelsArray_def empty_level_def
      split: side.splits)

text \<open>
  C1 (amended): for every sequence of \<^verbatim>\<open>NewOrder\<close> commands for limit orders that rest
  their residual (TIF neither IOC nor FOK) with non-negative quantities, completed on a
  fresh book, twice the quantity of all emitted trades plus the open quantity of all nodes
  resting in the book equals the sum of the submitted quantities: a trade consumes its
  quantity from the taker and from the maker.
\<close>

theorem C1_fill_conservation:
  assumes "\<forall>cmd \<in> set cmds. cmd_type cmd = NewOrder \<and> order_type cmd = Limit \<and>
             tif cmd \<noteq> IOC \<and> tif cmd \<noteq> FOK \<and> 0 \<le> cmd_qty cmd"
    and "run cmds (new_book symbol bd clk) = Done u b"
  shows "2 * trade_volume (out b) + resting_total b = sum_list (map cmd_qty cmds)"
proof -
  from assms(1) have "\<forall>cmd \<in> set cmds. resting_limit cmd" by (simp add: resting_limit_def)
  from run_account[OF assms(2) _ this] new_book_account[of symbol bd clk] show ?thesis
    by (simp add: account_def)
qed

text \<open>
  C1, counterexample: a bid of 10 at tick 150 rests; an ask of 5 at tick 145 then trades 5
  against it. One trade of 5 was emitted and 5 remain resting, but 15 were submitted.
\<close>

theorem C1_counterexample:
  "\<exists>b. run [limit_order 1 7 Bid 150 10 GTC 0, limit_order 2 8 Ask 145 5 GTC 0]
          (new_book 1 band_100_200 (\<lambda>_. 0)) = Done () b \<and>
       trade_volume (out b) = 5 \<and> resting_total b = 5 \<and>
       sum_list (map cmd_qty [limit_order 1 7 Bid 150 10 GTC 0, limit_order 2 8 Ask 145 5 GTC 0]) = 15"
proof -
  let ?cmds = "[limit_order 1 7 Bid 150 10 GTC 0, limit_order 2 8 Ask 145 5 GTC 0]"
  have "\<exists>b. run ?cmds (new_book 1 band_100_200 (\<lambda>_. 0)) = Done () b \<and> trade_volume (out b) = 5"
    by (simp add: eval_defs limit_order_def band_100_200_def match_level.simps trade_volume_def)
  then obtain b where b: "run ?cmds (new_book 1 band_100_200 (\<lambda>_. 0)) = Done () b"
    "trade_volume (out b) = 5" by blast
  have c: "\<forall>cmd \<in> set ?cmds. resting_limit cmd" by (simp add: resting_limit_def limit_order_def)
  have s: "sum_list (map cmd_qty ?cmds) = 15" by (simp add: limit_order_def)
  from run_account[OF b(1) _ c] new_book_account[of 1 band_100_200 "\<lambda>_. 0"] b(2) s
  have "resting_total b = 5" by (simp add: account_def)
  with b s show ?thesis by blast
qed

theorem C1_witness:
  "\<exists>b. run [limit_order 1 7 Ask 150 5 GTC 0, limit_order 2 8 Bid 150 10 GTC 0]
          (new_book 1 band_100_200 (\<lambda>_. 0)) = Done () b \<and>
       trade_volume (out b) = 5 \<and> 2 * trade_volume (out b) + resting_total b = 15"
proof -
  let ?cmds = "[limit_order 1 7 Ask 150 5 GTC 0, limit_order 2 8 Bid 150 10 GTC 0]"
  have "\<exists>b. run ?cmds (new_book 1 band_100_200 (\<lambda>_. 0)) = Done () b \<and> trade_volume (out b) = 5"
    by (simp add: eval_defs limit_order_def band_100_200_def match_level.simps trade_volume_def)
  then obtain b where b: "run ?cmds (new_book 1 band_100_200 (\<lambda>_. 0)) = Done () b"
    "trade_volume (out b) = 5" by blast
  have c: "\<forall>cmd \<in> set ?cmds. cmd_type cmd = NewOrder \<and> order_type cmd = Limit \<and>
             tif cmd \<noteq> IOC \<and> tif cmd \<noteq> FOK \<and> 0 \<le> cmd_qty cmd"
    by (simp add: limit_order_def)
  have s: "sum_list (map cmd_qty ?cmds) = 15" by (simp add: limit_order_def)
  from C1_fill_conservation[OF c b(1)] b s show ?thesis by auto
qed

section \<open>Replay\<close>

text \<open>
  Two executions of the same commands differ in what the clock returns. The book reads
  the clock for the timestamp of every book update and for the receive timestamp of the
  order that \<^verbatim>\<open>modify\<close> resubmits; receive timestamps reach the trade events of their
  taker and the resting nodes, and nothing else. \<open>w\<close> is what an observer keeps of a
  receive timestamp: everything (\<open>keep_ts\<close>) or nothing (\<open>drop_ts\<close>). The timestamp of a
  book update is always dropped.
\<close>

definition keep_ts :: "64 word \<Rightarrow> 64 word" where
  "keep_ts t = t"

definition drop_ts :: "64 word \<Rightarrow> 64 word" where
  "drop_ts t = 0"

definition erase_event :: "(64 word \<Rightarrow> 64 word) \<Rightarrow> any_event \<Rightarrow> any_event" where
  "erase_event w e =
     (case e of Trade t \<Rightarrow> Trade (t\<lparr>t_ts := w (t_ts t)\<rparr>) | Update u \<Rightarrow> Update (u\<lparr>u_ts := 0\<rparr>))"

text \<open>What is observed of an execution: whether it completed, and its event stream.\<close>

definition observed :: "(64 word \<Rightarrow> 64 word) \<Rightarrow> 'a outcome \<Rightarrow> fault option \<times> any_event list" where
  "observed w oc =
     (case oc of Done r b \<Rightarrow> (None, map (erase_event w) (out b))
               | Fault f b \<Rightarrow> (Some f, map (erase_event w) (out b)))"

text \<open>The same erasure on the state of the book, and a clock that always returns 0.\<close>

definition erase_node :: "(64 word \<Rightarrow> 64 word) \<Rightarrow> order_node \<Rightarrow> order_node" where
  "erase_node w n = n\<lparr>n_ts := w (n_ts n)\<rparr>"

definition erase_level :: "(64 word \<Rightarrow> 64 word) \<Rightarrow> level_fifo \<Rightarrow> level_fifo" where
  "erase_level w lv = lv\<lparr>nodes := map (erase_node w) (nodes lv)\<rparr>"

definition erase_pl :: "(64 word \<Rightarrow> 64 word) \<Rightarrow> price_levels \<Rightarrow> price_levels" where
  "erase_pl w pl = pl\<lparr>levels := (\<lambda>i. erase_level w (levels pl i))\<rparr>"

definition erase_book :: "(64 word \<Rightarrow> 64 word) \<Rightarrow> book \<Rightarrow> book" where
  "erase_book w b =
     b\<lparr>bids := erase_pl w (bids b), asks := erase_pl w (asks b),
       out := map (erase_event w) (out b), clock := (\<lambda>_. 0)\<rparr>"

definition erase_cmd :: "(64 word \<Rightarrow> 64 word) \<Rightarrow> order_command \<Rightarrow> order_command" where
  "erase_cmd w cmd = cmd\<lparr>recv_ts := w (recv_ts cmd)\<rparr>"

definition omap :: "(64 word \<Rightarrow> 64 word) \<Rightarrow> 'a outcome \<Rightarrow> 'a outcome" where
  "omap w oc = (case oc of Done r b \<Rightarrow> Done r (erase_book w b)
                         | Fault f b \<Rightarrow> Fault f (erase_book w b))"

lemma omap_simps [simp]:
  "omap w (Done r b) = Done r (erase_book w b)"
  "omap w (Fault f b) = Fault f (erase_book w b)"
  by (simp_all add: omap_def)

lemma observed_omap:
  "observed w oc = (case omap w oc of Done r b \<Rightarrow> (None, out b) | Fault f b \<Rightarrow> (Some f, out b))"
  by (cases oc) (simp_all add: observed_def erase_book_def)

subsection \<open>Nodes and levels\<close>

lemma erase_node_simps [simp]:
  "n_id (erase_node w n) = n_id n" "n_user (erase_node w n) = n_user n"
  "n_qty (erase_node w n) = n_qty n" "n_flags (erase_node w n) = n_flags n"
  "n_addr (erase_node w n) = n_addr n"
  by (simp_all add: erase_node_def)

lemma erase_level_simps [simp]:
  "nodes (erase_level w lv) = map (erase_node w) (nodes lv)"
  "total_qty (erase_level w lv) = total_qty lv"
  "level_empty (erase_level w lv) = level_empty lv"
  by (simp_all add: erase_level_def level_empty_def)

lemma erase_level_erase [simp]:
  "level_erase (erase_level w lv) (erase_node w n) = erase_level w (level_erase lv n)"
  by (simp add: erase_level_def level_erase_def filter_map o_def)

lemma erase_node_qty_update:
  "erase_node w (x\<lparr>n_qty := q\<rparr>) = (erase_node w x)\<lparr>n_qty := q\<rparr>"
  by (simp add: erase_node_def)

lemma erase_level_reduce [simp]:
  "reduce_qty (erase_level w lv) (erase_node w n) r = erase_level w (reduce_qty lv n r)"
  by (simp add: erase_level_def reduce_qty_def o_def erase_node_qty_update if_distrib
      cong: if_cong)

lemma erase_level_enqueue [simp]:
  "enqueue (erase_level w lv) (erase_node w n) = erase_level w (enqueue lv n)"
  by (simp add: erase_level_def enqueue_def)

lemma find_map_addr:
  "find (\<lambda>x. n_addr x = a) (map (erase_node w) xs) = map_option (erase_node w) (find (\<lambda>x. n_addr x = a) xs)"
  by (induction xs) simp_all

lemma erase_node_at [simp]:
  "node_at (erase_level w lv) a = map_option (erase_node w) (node_at lv a)"
  by (simp add: node_at_def find_map_addr)

subsection \<open>Ladders\<close>

lemma erase_pl_simps [simp]:
  "band (erase_pl w pl) = band pl"
  "levels (erase_pl w pl) i = erase_level w (levels pl i)"
  "pl_best_bid (erase_pl w pl) = pl_best_bid pl"
  "pl_best_ask (erase_pl w pl) = pl_best_ask pl"
  "best sd (erase_pl w pl) = best sd pl"
  "is_valid_price (erase_pl w pl) px = is_valid_price pl px"
  "idx (erase_pl w pl) px = idx pl px"
  "has_level (erase_pl w pl) px = has_level pl px"
  "get_level (erase_pl w pl) px = map_option (erase_level w) (get_level pl px)"
  "best_level_ptr sd (erase_pl w pl) = best_level_ptr sd pl"
  "depth sd (erase_pl w pl) = depth sd pl"
  by (simp_all add: erase_pl_def best_def is_valid_price_def idx_def has_level_def get_level_def
      best_level_ptr_def depth_def split: side.splits option.splits)

lemma erase_set_best [simp]:
  "set_best sd (erase_pl w pl) px = map_option (erase_pl w) (set_best sd pl px)"
  by (simp add: set_best_def) (simp add: erase_pl_def split: side.splits)

lemma erase_pl_levels_update:
  "erase_pl w (pl\<lparr>levels := (levels pl)(i := lv)\<rparr>) =
   (erase_pl w pl)\<lparr>levels := (levels (erase_pl w pl))(i := erase_level w lv)\<rparr>"
  by (simp add: erase_pl_def fun_eq_iff)

subsection \<open>The book\<close>

lemma erase_book_simps [simp]:
  "ladder sd (erase_book w b) = erase_pl w (ladder sd b)"
  "bids (erase_book w b) = erase_pl w (bids b)"
  "asks (erase_book w b) = erase_pl w (asks b)"
  "id_index (erase_book w b) = id_index b"
  "next_addr (erase_book w b) = next_addr b"
  "on_trade_set (erase_book w b) = on_trade_set b"
  "on_book_update_set (erase_book w b) = on_book_update_set b"
  "symbol_id (erase_book w b) = symbol_id b"
  "clock_reads (erase_book w b) = clock_reads b"
  "clock (erase_book w b) = (\<lambda>_. 0)"
  "out (erase_book w b) = map (erase_event w) (out b)"
  by (simp_all add: erase_book_def ladder_def split: side.splits)

lemma erase_book_updates [simp]:
  "erase_book w (b\<lparr>id_index := ix\<rparr>) = (erase_book w b)\<lparr>id_index := ix\<rparr>"
  "erase_book w (b\<lparr>next_addr := a\<rparr>) = (erase_book w b)\<lparr>next_addr := a\<rparr>"
  "erase_book w (b\<lparr>clock_reads := k\<rparr>) = (erase_book w b)\<lparr>clock_reads := k\<rparr>"
  by (simp_all add: erase_book_def)

lemma erase_set_ladder [simp]:
  "erase_book w (set_ladder sd pl b) = set_ladder sd (erase_pl w pl) (erase_book w b)"
  by (cases sd) (simp_all add: erase_book_def set_ladder_def)

lemma erase_upd_level:
  "erase_level w (f (levels (ladder sd b) i)) = g (erase_level w (levels (ladder sd b) i)) \<Longrightarrow>
   erase_book w (upd_level sd i f b) = upd_level sd i g (erase_book w b)"
  by (simp add: upd_level_def erase_pl_levels_update)

lemma erase_upd_level_erase [simp]:
  "upd_level sd i (\<lambda>lv. level_erase lv (erase_node w n)) (erase_book w b) =
   erase_book w (upd_level sd i (\<lambda>lv. level_erase lv n) b)"
  by (rule erase_upd_level[symmetric]) simp

lemma erase_upd_level_reduce [simp]:
  "upd_level sd i (\<lambda>lv. reduce_qty lv (erase_node w n) r) (erase_book w b) =
   erase_book w (upd_level sd i (\<lambda>lv. reduce_qty lv n r) b)"
  by (rule erase_upd_level[symmetric]) simp

lemma erase_upd_level_enqueue [simp]:
  "upd_level sd i (\<lambda>lv. enqueue lv (erase_node w n)) (erase_book w b) =
   erase_book w (upd_level sd i (\<lambda>lv. enqueue lv n) b)"
  by (rule erase_upd_level[symmetric]) simp

lemma erase_emit_trade:
  "emit_trade (erase_book w b) (t\<lparr>t_ts := w (t_ts t)\<rparr>) = erase_book w (emit_trade b t)"
  by (simp add: emit_trade_def erase_book_def erase_event_def)

lemma erase_emit_book_update [simp]:
  "emit_book_update (erase_book w b) = map_option (erase_book w) (emit_book_update b)"
  by (simp add: emit_book_update_def Let_def now_ns_def option.map_comp o_def
      split: option.splits)
     (simp add: erase_book_def erase_event_def)

lemma erase_finish [simp]: "finish r (erase_book w b) = omap w (finish r b)"
  by (simp add: finish_def split: option.splits)

subsection \<open>The searches\<close>

lemma erase_refresh_scan [simp]:
  "refresh_scan sd (erase_pl w pl) cur i = map_option (erase_pl w) (refresh_scan sd pl cur i)"
proof (induction "nat (MAX_SEARCH + 1 - i)" arbitrary: i rule: less_induct)
  case less
  show ?case
  proof (cases "i \<le> MAX_SEARCH \<and> \<not> past_sentinel sd (scan_px sd cur i) \<and>
                is_valid_price pl (scan_px sd cur i) \<and>
                has_level pl (scan_px sd cur i) = Some False")
    case True
    then have "nat (MAX_SEARCH + 1 - (i + 1)) < nat (MAX_SEARCH + 1 - i)" by simp
    from less[OF this] True show ?thesis
      by (subst refresh_scan.simps, subst (2) refresh_scan.simps) (simp add: Let_def)
  next
    case False
    then show ?thesis
      by (subst refresh_scan.simps, subst (2) refresh_scan.simps)
         (auto simp: Let_def split: option.splits bool.splits)
  qed
qed

lemma erase_refresh [simp]:
  "refresh_best_after_depletion sd (erase_book w b) = omap w (refresh_best_after_depletion sd b)"
  by (simp add: refresh_best_after_depletion_def Let_def split: option.splits)

lemma erase_fok_walk [simp]:
  "fok_walk sd (erase_pl w pl) qty lim av px steps = fok_walk sd pl qty lim av px steps"
proof (induction "nat (MAX_STEPS - steps)" arbitrary: av px steps rule: less_induct)
  case less
  show ?case
  proof (cases "av < qty \<and> steps < MAX_STEPS")
    case True
    then have "nat (MAX_STEPS - (steps + 1)) < nat (MAX_STEPS - steps)" by simp
    note IH = less[OF this]
    have u: "fok_walk sd p qty lim av px steps =
      (if (case sd of Bid \<Rightarrow> px > lim \<or> px = EMPTY_ASK | Ask \<Rightarrow> px < lim \<or> px = EMPTY_BID)
        then Some (av \<ge> qty)
        else if \<not> is_valid_price p px then Some (av \<ge> qty)
        else (case has_level p px of
                None \<Rightarrow> None
              | Some h \<Rightarrow>
                (case (if h then map_option (\<lambda>lv. av + total_qty lv) (get_level p px)
                       else Some av) of
                   None \<Rightarrow> None
                 | Some available' \<Rightarrow>
                     fok_walk sd p qty lim available'
                       (case sd of Bid \<Rightarrow> px + 1 | Ask \<Rightarrow> px - 1) (steps + 1))))" for p
      using True by (subst fok_walk.simps) simp
    show ?thesis
      unfolding u[of "erase_pl w pl"] u[of pl]
      by (simp add: IH option.map_comp o_def split: option.splits)
  next
    case False
    have u: "fok_walk sd p qty lim av px steps = Some (av \<ge> qty)" for p
      using False by (subst fok_walk.simps) auto
    show ?thesis by (simp add: u)
  qed
qed

lemma erase_check_fok [simp]:
  "check_fok_liquidity sd (erase_book w b) qty lim = check_fok_liquidity sd b qty lim"
  by (simp add: check_fok_liquidity_def Let_def)

subsection \<open>Matching\<close>

lemma erase_traded:
  "traded (w ts) taker bp (erase_node w maker) qty (erase_book w b) =
   erase_book w (traded ts taker bp maker qty b)"
  using erase_emit_trade[of w b "\<lparr>t_ts = ts, taker_id = taker, maker_id = n_id maker,
          t_symbol = symbol_id b, t_price = bp, t_qty = min qty (n_qty maker)\<rparr>"]
  by (simp add: traded_def)

lemma erase_match_level:
  "match_level sd i bp taker tu (w ts) stp (map (erase_node w) makers) qty tf (erase_book w b) =
   omap w (match_level sd i bp taker tu ts stp makers qty tf b)"
proof (induction makers arbitrary: qty tf b)
  case Nil
  show ?case by (simp add: match_level_Nil)
next
  case (Cons maker rest)
  let ?m = "erase_node w maker"
  consider "\<not> qty > 0" | "qty > 0" "stp \<and> n_user maker = tu"
    | "qty > 0" "\<not> (stp \<and> n_user maker = tu)" "qty \<ge> n_qty maker"
    | "qty > 0" "\<not> (stp \<and> n_user maker = tu)" "qty < n_qty maker"
    by linarith
  then show ?case
  proof cases
    case 1
    then show ?thesis by (simp add: match_level_no_qty)
  next
    case 2
    then have "qty > 0" "stp \<and> n_user ?m = tu" by simp_all
    from match_level_skip[OF this] match_level_skip[OF 2] Cons.IH show ?thesis by simp
  next
    case 3
    then have "qty > 0" "\<not> (stp \<and> n_user ?m = tu)" "qty \<ge> n_qty ?m" by simp_all
    from match_level_full[OF this] match_level_full[OF 3] show ?thesis
      by (simp add: erase_traded Cons.IH[symmetric] split: option.splits)
  next
    case 4
    then have "qty > 0" "\<not> (stp \<and> n_user ?m = tu)" "qty < n_qty ?m" by simp_all
    from match_level_partial[OF this] match_level_partial[OF 4] show ?thesis
      by (simp add: erase_traded)
  qed
qed

lemma erase_cur_slot [simp]: "cur_slot sd (erase_book w b) = cur_slot sd b"
  by (simp add: cur_slot_def)

lemma erase_stops [simp]: "stops sd lim q (erase_book w b) = stops sd lim q b"
  by (cases sd) (simp_all add: stops_def)

lemma erase_match_loop:
  "match_loop sd lim taker tu (w ts) stp qty tf (erase_book w b) =
   omap w (match_loop sd lim taker tu ts stp qty tf b)"
proof (induction "depth sd (ladder sd b)" arbitrary: qty tf b rule: less_induct)
  case less
  show ?case
  proof (cases "stops sd lim qty b")
    case True
    then show ?thesis by (simp add: match_loop_stop)
  next
    case False
    let ?i = "cur_slot sd b"
    let ?ml = "match_level sd ?i (best sd (ladder sd b)) taker tu ts stp
                 (nodes (levels (ladder sd b) ?i)) qty tf b"
    have e: "match_level sd ?i (best sd (ladder sd b)) taker tu (w ts) stp
               (map (erase_node w) (nodes (levels (ladder sd b) ?i))) qty tf (erase_book w b)
             = omap w ?ml"
      by (rule erase_match_level)
    show ?thesis
    proof (cases ?ml)
      case (Fault f b1)
      with False e show ?thesis by (simp add: match_loop_step)
    next
      case (Done r b1)
      show ?thesis
      proof (cases "level_empty (levels (ladder sd b1) ?i)")
        case ne: False
        with False e Done show ?thesis by (simp add: match_loop_step)
      next
        case True
        show ?thesis
        proof (cases "refresh_best_after_depletion sd b1")
          case (Fault f b2)
          with False e Done True show ?thesis by (simp add: match_loop_step)
        next
          case rf: (Done u b2)
          from False have nz: "best sd (ladder sd b) \<noteq> sentinel sd" by (simp add: stops_def)
          from match_level_rel[OF Done] have same: "best sd (ladder sd b1) = best sd (ladder sd b)"
            "band (ladder sd b1) = band (ladder sd b)" by (simp_all add: match_rel_def)
          have "depth sd (ladder sd b1) = depth sd (ladder sd b)"
            unfolding depth_def same ..
          with refresh_depth[OF rf] nz same have "depth sd (ladder sd b2) < depth sd (ladder sd b)"
            by simp
          from less[OF this] False e Done True rf show ?thesis
            by (simp add: match_loop_step)
        qed
      qed
    qed
  qed
qed

lemma erase_match_against_side:
  "match_against_side sd qty lim taker tu (w ts) stp (erase_book w b) =
   omap w (match_against_side sd qty lim taker tu ts stp b)"
  by (simp add: match_against_side_def erase_match_loop)

subsection \<open>The commands\<close>

lemmas erase_outward =
  erase_book_updates[symmetric] erase_set_ladder[symmetric]

lemma erase_cmd_simps [simp]:
  "cmd_type (erase_cmd w cmd) = cmd_type cmd" "order_id (erase_cmd w cmd) = order_id cmd"
  "user_id (erase_cmd w cmd) = user_id cmd" "price_ticks (erase_cmd w cmd) = price_ticks cmd"
  "cmd_qty (erase_cmd w cmd) = cmd_qty cmd" "cmd_side (erase_cmd w cmd) = cmd_side cmd"
  "order_type (erase_cmd w cmd) = order_type cmd" "tif (erase_cmd w cmd) = tif cmd"
  "cmd_flags (erase_cmd w cmd) = cmd_flags cmd" "recv_ts (erase_cmd w cmd) = w (recv_ts cmd)"
  by (simp_all add: erase_cmd_def)

lemma erase_rest_order:
  "rest_order sd (erase_cmd w cmd) f r (erase_book w b) = omap w (rest_order sd cmd f r b)"
proof -
  have mk: "\<lparr>n_id = order_id cmd, n_user = user_id cmd, n_qty = r, n_ts = w (recv_ts cmd),
             n_flags = cmd_flags cmd, n_addr = next_addr b\<rparr> =
            erase_node w \<lparr>n_id = order_id cmd, n_user = user_id cmd, n_qty = r, n_ts = recv_ts cmd,
             n_flags = cmd_flags cmd, n_addr = next_addr b\<rparr>"
    by (simp add: erase_node_def)
  show ?thesis
    unfolding rest_order_def Let_def
    by (simp add: mk erase_outward del: erase_book_updates erase_set_ladder
        split: option.splits cong: side.case_cong if_cong)
qed

lemma erase_match_opposite:
  "match_opposite sd (erase_cmd w cmd) (erase_book w b) = omap w (match_opposite sd cmd b)"
  by (simp add: match_opposite_def Let_def erase_match_against_side cong: side.case_cong)

lemma erase_submit_limit_side:
  "submit_limit_side sd (erase_cmd w cmd) (erase_book w b) = omap w (submit_limit_side sd cmd b)"
proof (cases "match_opposite sd cmd b")
  case (Done fq b1)
  with erase_match_opposite[of sd w cmd b] show ?thesis
    by (simp add: submit_limit_side_def Let_def erase_rest_order
        split: option.splits bool.splits)
next
  case (Fault f b1)
  with erase_match_opposite[of sd w cmd b] show ?thesis
    by (simp add: submit_limit_side_def Let_def split: option.splits bool.splits)
qed

lemma erase_submit_limit:
  "submit_limit (erase_cmd w cmd) (erase_book w b) = omap w (submit_limit cmd b)"
  by (simp add: submit_limit_def erase_submit_limit_side)

lemma erase_submit_market:
  "submit_market (erase_cmd w cmd) (erase_book w b) = omap w (submit_market cmd b)"
proof -
  let ?m = "\<lambda>sd lim. match_against_side sd (cmd_qty cmd) lim (order_id cmd) (user_id cmd)
                   (recv_ts cmd) (cmd_flags cmd AND STP \<noteq> 0) b"
  have e: "match_against_side sd (cmd_qty cmd) lim (order_id cmd) (user_id cmd)
             (w (recv_ts cmd)) (cmd_flags cmd AND STP \<noteq> 0) (erase_book w b) = omap w (?m sd lim)"
    for sd lim by (rule erase_match_against_side)
  show ?thesis
  proof (cases "cmd_side cmd = Bid")
    case True
    then show ?thesis
      by (cases "?m Ask EMPTY_ASK") (simp_all add: submit_market_def Let_def e)
  next
    case False
    then show ?thesis
      by (cases "?m Bid EMPTY_BID") (simp_all add: submit_market_def Let_def e)
  qed
qed

lemma erase_cancel: "cancel ident (erase_book w b) = omap w (cancel ident b)"
proof (cases "fm_find (id_index b) ident")
  case None
  then show ?thesis by (simp add: cancel_def)
next
  case (Some entry)
  let ?sd = "e_side entry"
  show ?thesis
  proof (cases "idx (ladder ?sd b) (e_price entry)")
    case None
    with Some show ?thesis by (simp add: cancel_def Let_def)
  next
    case i: (Some i)
    show ?thesis
    proof (cases "node_at (levels (ladder ?sd b) i) (e_node entry)")
      case None
      with Some i show ?thesis by (simp add: cancel_def Let_def)
    next
      case n: (Some node)
      let ?b1 = "upd_level ?sd i (\<lambda>level. level_erase level node) b"
      let ?r = "if level_empty (levels (ladder ?sd ?b1) i)
                then refresh_best_after_depletion ?sd ?b1 else Done () ?b1"
      have L: "cancel ident b =
          (case ?r of Fault f b' \<Rightarrow> Fault f b'
           | Done u b2 \<Rightarrow> (case fm_erase (id_index b2) ident of
                None \<Rightarrow> Fault Diverges b2
              | Some ix \<Rightarrow> finish True (b2\<lparr>id_index := ix\<rparr>)))"
        using Some i n by (simp add: cancel_def Let_def)
      have R: "cancel ident (erase_book w b) =
          (case omap w ?r of Fault f b' \<Rightarrow> Fault f b'
           | Done u b2 \<Rightarrow> (case fm_erase (id_index b2) ident of
                None \<Rightarrow> Fault Diverges b2
              | Some ix \<Rightarrow> finish True (b2\<lparr>id_index := ix\<rparr>)))"
        using Some i n by (simp add: cancel_def Let_def)
      show ?thesis
        unfolding L R
        by (cases ?r)
           (simp_all add: erase_outward del: erase_book_updates erase_set_ladder
              split: option.splits)
    qed
  qed
qed

text \<open>
  \<^verbatim>\<open>modify\<close> reads the clock for the receive timestamp of the order it resubmits, so its
  trades and its resting node carry a clock value: only an observer that drops receive
  timestamps sees the same.
\<close>

lemma erase_modify:
  assumes w: "\<forall>t. w t = 0"
  shows "modify ident new_price new_qty (erase_book w b) = omap w (modify ident new_price new_qty b)"
proof (cases "fm_find (id_index b) ident")
  case None
  then show ?thesis by (simp add: modify_def)
next
  case (Some entry)
  let ?sd = "e_side entry"
  show ?thesis
  proof (cases "idx (ladder ?sd b) (e_price entry)")
    case None
    with Some show ?thesis by (simp add: modify_def)
  next
    case i: (Some i)
    show ?thesis
    proof (cases "node_at (levels (ladder ?sd b) i) (e_node entry)")
      case None
      with Some i show ?thesis by (simp add: modify_def)
    next
      case n: (Some node)
      show ?thesis
      proof (cases "new_price = e_price entry \<and> new_qty < n_qty node")
        case True
        with Some i n show ?thesis by (simp add: modify_def Let_def)
      next
        case False
        let ?b1 = "b\<lparr>clock_reads := clock_reads b + 1\<rparr>"
        let ?cmd = "\<lparr>cmd_type = NewOrder, recv_ts = clock b (clock_reads b), order_id = ident,
                 user_id = n_user node, price_ticks = new_price, cmd_qty = new_qty,
                 cmd_side = e_side entry, order_type = Limit, tif = GTC,
                 cmd_flags = n_flags node\<rparr>"
        have c: "erase_cmd w ?cmd = ?cmd\<lparr>recv_ts := 0\<rparr>" using w by (simp add: erase_cmd_def)
        have L: "modify ident new_price new_qty b =
            (case cancel ident ?b1 of Fault f b' \<Rightarrow> Fault f b'
             | Done ok b2 \<Rightarrow> if \<not> ok then Done (ExecResult 0 0) b2 else submit_limit ?cmd b2)"
          using Some i n False by (auto simp: modify_def Let_def now_ns_def)
        have R: "modify ident new_price new_qty (erase_book w b) =
            (case omap w (cancel ident ?b1) of Fault f b' \<Rightarrow> Fault f b'
             | Done ok b2 \<Rightarrow> if \<not> ok then Done (ExecResult 0 0) b2
                             else submit_limit (?cmd\<lparr>recv_ts := 0\<rparr>) b2)"
          using Some i n False erase_cancel[of ident w ?b1]
          by (cases "cancel ident ?b1") (auto simp: modify_def Let_def now_ns_def)
        have s: "submit_limit (?cmd\<lparr>recv_ts := 0\<rparr>) (erase_book w x) = omap w (submit_limit ?cmd x)"
          for x using erase_submit_limit[of w ?cmd x] unfolding c .
        show ?thesis
          unfolding L R by (cases "cancel ident ?b1") (simp_all add: s del: order_command.simps)
      qed
    qed
  qed
qed

lemma erase_process:
  assumes "(\<forall>t. w t = 0) \<or> cmd_type cmd \<noteq> ModifyOrder"
  shows "process (erase_cmd w cmd) (erase_book w b) = omap w (process cmd b)"
proof (cases "cmd_type cmd")
  case NewOrder
  show ?thesis
  proof (cases "order_type cmd = Limit")
    case True
    with NewOrder show ?thesis
      by (cases "submit_limit cmd b") (simp_all add: process_def erase_submit_limit)
  next
    case False
    with NewOrder show ?thesis
      by (cases "submit_market cmd b") (simp_all add: process_def erase_submit_market)
  qed
next
  case CancelOrder
  then show ?thesis
    by (cases "cancel (order_id cmd) b") (simp_all add: process_def erase_cancel)
next
  case ModifyOrder
  with assms have w: "\<forall>t. w t = 0" by simp
  from ModifyOrder show ?thesis
    by (cases "modify (order_id cmd) (price_ticks cmd) (cmd_qty cmd) b")
       (simp_all add: process_def erase_modify[OF w])
qed

lemma erase_run:
  "(\<forall>t. w t = 0) \<or> (\<forall>cmd \<in> set cmds. cmd_type cmd \<noteq> ModifyOrder) \<Longrightarrow>
   run (map (erase_cmd w) cmds) (erase_book w b) = omap w (run cmds b)"
proof (induction cmds arbitrary: b)
  case Nil
  show ?case by simp
next
  case (Cons cmd cmds)
  from Cons.prems have 1: "(\<forall>t. w t = 0) \<or> cmd_type cmd \<noteq> ModifyOrder"
    and 2: "(\<forall>t. w t = 0) \<or> (\<forall>cmd \<in> set cmds. cmd_type cmd \<noteq> ModifyOrder)" by auto
  show ?case
    by (cases "process cmd b") (simp_all add: erase_process[OF 1] Cons.IH[OF 2])
qed

lemma erase_new_book: "erase_book w (new_book symbol bd clk) = new_book symbol bd (\<lambda>_. 0)"
  by (simp add: erase_book_def new_book_def erase_pl_def PriceLevelsArray_def erase_level_def
      empty_level_def)

lemma observed_replay:
  assumes "(\<forall>t. w t = 0) \<or> (\<forall>cmd \<in> set cmds. cmd_type cmd \<noteq> ModifyOrder)"
  shows "observed w (run cmds (new_book symbol bd clk)) =
         observed w (run cmds (new_book symbol bd clk'))"
proof -
  have "omap w (run cmds (new_book symbol bd c)) =
        run (map (erase_cmd w) cmds) (new_book symbol bd (\<lambda>_. 0))" for c
    using erase_run[OF assms, of "new_book symbol bd c"] by (simp add: erase_new_book)
  then have "omap w (run cmds (new_book symbol bd clk)) = omap w (run cmds (new_book symbol bd clk'))"
    by simp
  then show ?thesis by (simp add: observed_omap)
qed

text \<open>
  C4 (amended): two executions of a command sequence on a fresh engine, whatever their
  clocks return, complete or fail alike and emit the same trade events and book updates
  up to the timestamp fields of the events; if the sequence contains no \<^verbatim>\<open>ModifyOrder\<close>,
  the trade events agree in their timestamps as well, and only the timestamps of the
  book updates differ.
\<close>

theorem C4_replay_up_to_timestamps:
  "observed drop_ts (run cmds (new_book symbol bd clk)) =
   observed drop_ts (run cmds (new_book symbol bd clk')) \<and>
   ((\<forall>cmd \<in> set cmds. cmd_type cmd \<noteq> ModifyOrder) \<longrightarrow>
    observed keep_ts (run cmds (new_book symbol bd clk)) =
    observed keep_ts (run cmds (new_book symbol bd clk')))"
proof
  have "\<forall>t. drop_ts t = 0" by (simp add: drop_ts_def)
  then show "observed drop_ts (run cmds (new_book symbol bd clk)) =
             observed drop_ts (run cmds (new_book symbol bd clk'))"
    by (intro observed_replay) simp
next
  show "(\<forall>cmd \<in> set cmds. cmd_type cmd \<noteq> ModifyOrder) \<longrightarrow>
    observed keep_ts (run cmds (new_book symbol bd clk)) =
    observed keep_ts (run cmds (new_book symbol bd clk'))"
    by (intro impI observed_replay) simp
qed

text \<open>
  C4, counterexample: the same single order, executed with a clock that returns 0 and
  with a clock that returns 1. The book updates differ in their timestamp.
\<close>

theorem C4_counterexample:
  "out (after [limit_order 1 7 Bid 150 10 GTC 0] (new_book 1 band_100_200 (\<lambda>_. 0))) =
     [Update \<lparr>u_ts = 0, u_symbol = 1, u_best_bid = 150, u_best_ask = EMPTY_ASK,
               bid_qty = 10, ask_qty = 0\<rparr>] \<and>
   out (after [limit_order 1 7 Bid 150 10 GTC 0] (new_book 1 band_100_200 (\<lambda>_. 1))) =
     [Update \<lparr>u_ts = 1, u_symbol = 1, u_best_bid = 150, u_best_ask = EMPTY_ASK,
               bid_qty = 10, ask_qty = 0\<rparr>]"
  by (simp add: after_def eval_defs limit_order_def band_100_200_def match_level.simps)

theorem C4_witness:
  "observed keep_ts (run [limit_order 1 7 Bid 150 10 GTC 0, limit_order 2 8 Ask 150 5 GTC 0]
     (new_book 1 band_100_200 (\<lambda>_. 0))) =
   observed keep_ts (run [limit_order 1 7 Bid 150 10 GTC 0, limit_order 2 8 Ask 150 5 GTC 0]
     (new_book 1 band_100_200 (\<lambda>_. 1))) \<and>
   observed keep_ts (run [limit_order 1 7 Bid 150 10 GTC 0, limit_order 2 8 Ask 150 5 GTC 0]
     (new_book 1 band_100_200 (\<lambda>_. 1))) =
   (None,
    [Update \<lparr>u_ts = 0, u_symbol = 1, u_best_bid = 150, u_best_ask = EMPTY_ASK,
              bid_qty = 10, ask_qty = 0\<rparr>,
     Trade \<lparr>t_ts = 0, taker_id = 2, maker_id = 1, t_symbol = 1, t_price = 150, t_qty = 5\<rparr>,
     Update \<lparr>u_ts = 0, u_symbol = 1, u_best_bid = 150, u_best_ask = EMPTY_ASK,
              bid_qty = 5, ask_qty = 0\<rparr>])"
proof -
  let ?cmds = "[limit_order 1 7 Bid 150 10 GTC 0, limit_order 2 8 Ask 150 5 GTC 0]"
  have n: "\<forall>cmd \<in> set ?cmds. cmd_type cmd \<noteq> ModifyOrder" by (simp add: limit_order_def)
  have v: "observed keep_ts (run ?cmds (new_book 1 band_100_200 (\<lambda>_. 1))) =
   (None,
    [Update \<lparr>u_ts = 0, u_symbol = 1, u_best_bid = 150, u_best_ask = EMPTY_ASK,
              bid_qty = 10, ask_qty = 0\<rparr>,
     Trade \<lparr>t_ts = 0, taker_id = 2, maker_id = 1, t_symbol = 1, t_price = 150, t_qty = 5\<rparr>,
     Update \<lparr>u_ts = 0, u_symbol = 1, u_best_bid = 150, u_best_ask = EMPTY_ASK,
              bid_qty = 5, ask_qty = 0\<rparr>])"
    by (simp add: observed_def erase_event_def keep_ts_def eval_defs limit_order_def
        band_100_200_def match_level.simps)
  from C4_replay_up_to_timestamps[of ?cmds 1 band_100_200 "\<lambda>_. 0" "\<lambda>_. 1"] n v
  show ?thesis by blast
qed

section \<open>Modify of an order the index has lost\<close>

text \<open>
  C6. The claim fails on the code. Orders 8798 and 5501 rest as bids of 10 lots at tick
  150, and order 8798 is cancelled. Order 5501 then rests alone at tick 150 with its 10
  lots, but the erase of 8798 from the order index has moved the entry of 5501 out of its
  probe chain, so the index no longer finds it: \<^verbatim>\<open>modify(5501, 150, 5)\<close>, a strict decrease
  at the price the order rests at, returns \<open>{filled = 0, remaining = 0}\<close> and leaves the
  book as it was. The quantity of the node is not reduced and no book update is emitted.
\<close>

theorem C6_modify_misses_resting_order:
  "\<exists>b. run [limit_order 8798 7 Bid 150 10 GTC 0, limit_order 5501 8 Bid 150 10 GTC 0,
            cancel_order 8798]
          (new_book 1 band_100_200 (\<lambda>_. 0)) = Done () b \<and>
       nodes (levels (bids b) 50) =
         [\<lparr>n_id = 5501, n_user = 8, n_qty = 10, n_ts = 0, n_flags = 0, n_addr = 2\<rparr>] \<and>
       pl_best_bid (bids b) = 150 \<and>
       fm_find (id_index b) 5501 = None \<and>
       modify 5501 150 5 b = Done (ExecResult 0 0) b \<and>
       process (modify_order 5501 150 5) b = Done () b"
  by (simp add: eval_defs limit_order_def cancel_order_def modify_order_def band_100_200_def
      match_level.simps fun_upd_twist)

end
